theory Spec2Isabelle
  imports Main "HOL-Library.AList" "HOL-Library.Multiset"
    "HOL-Library.List_Lexorder" "HOL-Library.Char_ord"
begin

section \<open>Data model\<close>

text \<open>
  A Go value of type \<open>any\<close>, restricted to the dynamic types that this package and
  \<open>encoding/json\<close> store and inspect: \<open>nil\<close>, \<open>bool\<close>, \<open>float64\<close>, \<open>string\<close>, \<open>[]any\<close>,
  the native \<open>map[string]any\<close> and \<open>OrderedMap\<close> itself.

  A \<open>float64\<close> is represented by a JSON number literal that denotes it (floating point
  arithmetic is not modelled); several literals denote the same number, and a \<open>Float64\<close>
  whose string is no number literal stands for a NaN or an infinity. A Go map is an
  association list with at most one entry per key, read with \<open>map_of\<close>. The nil map and
  the empty map are both \<open>[]\<close>: they read, delete and count alike, and differ only in that
  a store into a nil map panics; the one nil map that this package makes is the value
  map left by \<open>UnmarshalJSON\<close> of the text \<open>null\<close>. Strings are byte sequences, as in
  Go. An \<open>OrderedMap\<close> stored as a value and a pointer to one are not told apart.
\<close>

datatype val =
    Nil
  | Bool bool
  | Float64 string
  | String string
  | Slice "val list"
  | Map "(string \<times> val) list"
  | OMap "string list" "(string \<times> val) list"

text \<open>\<open>type OrderedMap struct { keys []string; values map[string]any }\<close>\<close>

record OrderedMap =
  keys :: "string list"
  "values" :: "(string \<times> val) list"

text \<open>\<open>type pair struct { key string; value any }\<close>\<close>

record pair =
  Key :: string
  Value :: val

text \<open>
  Error returns and run-time panics. A panic unwinds through every caller of this
  package, so it is modelled like an error that every caller passes on.
\<close>

datatype error =
    ErrJSONDuplicate string
  | SyntaxError
  | EOF
  | ErrUnexpectedEOF
  | UnmarshalTypeError
  | UnsupportedValueError
  | MarshalerError
  | PanicIndexOutOfRange
  | PanicTypeAssertion
  | NoProgress

section \<open>The ordered container\<close>

definition New :: OrderedMap where
  "New = \<lparr>keys = [], values = []\<rparr>"

text \<open>Reading a Go map: the zero value \<open>nil\<close> for an absent key.\<close>

definition Get :: "OrderedMap \<Rightarrow> string \<Rightarrow> val" where
  "Get m key = (case map_of (values m) key of None \<Rightarrow> Nil | Some v \<Rightarrow> v)"

definition Set :: "OrderedMap \<Rightarrow> string \<Rightarrow> val \<Rightarrow> OrderedMap" where
  "Set m key v =
     (let ok = (map_of (values m) key \<noteq> None);
          ks = (if \<not> ok then keys m @ [key] else keys m)
      in m\<lparr>keys := ks, values := AList.update key v (values m)\<rparr>)"




definition Keys :: "OrderedMap \<Rightarrow> string list" where
  "Keys m = keys m"

definition Values :: "OrderedMap \<Rightarrow> val list" where
  "Values m = map (Get m) (keys m)"

definition KeysValues :: "OrderedMap \<Rightarrow> (string \<times> val) list" where
  "KeysValues m = values m"

definition Len :: "OrderedMap \<Rightarrow> int" where
  "Len m = int (length (keys m))"

text \<open>Go's index expression \<open>s[pos]\<close> on a slice: out of range it panics.\<close>

definition slice_at :: "'a list \<Rightarrow> int \<Rightarrow> error + 'a" where
  "slice_at s pos =
     (if pos < 0 \<or> int (length s) \<le> pos then Inl PanicIndexOutOfRange
      else Inr (s ! nat pos))"

definition GetValueAt :: "OrderedMap \<Rightarrow> int \<Rightarrow> error + val" where
  "GetValueAt m pos =
     (case slice_at (keys m) pos of Inl e \<Rightarrow> Inl e | Inr k \<Rightarrow> Inr (Get m k))"

definition GetKeyAt :: "OrderedMap \<Rightarrow> int \<Rightarrow> error + string" where
  "GetKeyAt m pos = slice_at (keys m) pos"

text \<open>
  \<open>SortKeys\<close> hands the key slice to the caller's procedure, which works on it in
  place; \<open>sortFunc\<close> is that procedure as a function from the slice's old contents to its
  new ones.
\<close>

definition SortKeys :: "OrderedMap \<Rightarrow> (string list \<Rightarrow> string list) \<Rightarrow> OrderedMap" where
  "SortKeys m sortFunc = m\<lparr>keys := sortFunc (keys m)\<rparr>"

text \<open>
  \<open>Sort\<close> snapshots the entries as pairs, lets \<open>sort.Sort\<close> reorder the snapshot and
  writes the keys back by position. The library routine \<open>sort.Sort\<close> on \<open>byPair\<close> is
  the parameter \<open>sort_Sort\<close>: it only calls \<open>Less\<close> and \<open>Swap\<close>, and which of several
  permutations it yields is not fixed by its documentation.
\<close>

definition Sort_write :: "string list \<Rightarrow> pair list \<Rightarrow> string list" where
  "Sort_write ks pairs = foldl (\<lambda>ks' (i, p). ks'[i := Key p]) ks (enumerate 0 pairs)"

definition Sort ::
  "((pair \<Rightarrow> pair \<Rightarrow> bool) \<Rightarrow> pair list \<Rightarrow> pair list) \<Rightarrow>
   OrderedMap \<Rightarrow> (pair \<Rightarrow> pair \<Rightarrow> bool) \<Rightarrow> OrderedMap" where
  "Sort sort_Sort m lessFunc =
     (let pairs = map (\<lambda>key. \<lparr>Key = key, Value = Get m key\<rparr>) (keys m);
          pairs' = sort_Sort lessFunc pairs
      in m\<lparr>keys := Sort_write (keys m) pairs'\<rparr>)"

text \<open>
  Insertion sort driven by a less-than predicate, the routine that \<open>sort.Sort\<close> runs on
  a short slice: each element in turn moves left while it is less than its left
  neighbour (\<open>for j := i; j > a && data.Less(j, j-1); j-- { data.Swap(j, j-1) }\<close>), so
  entries that compare equal keep their order.
\<close>

definition insert_by :: "('a \<Rightarrow> 'a \<Rightarrow> bool) \<Rightarrow> 'a \<Rightarrow> 'a list \<Rightarrow> 'a list" where
  "insert_by lt x ys =
     rev (dropWhile (lt x) (rev ys)) @ x # rev (takeWhile (lt x) (rev ys))"

definition insertionSort :: "('a \<Rightarrow> 'a \<Rightarrow> bool) \<Rightarrow> 'a list \<Rightarrow> 'a list" where
  "insertionSort lt xs = foldl (\<lambda>ys x. insert_by lt x ys) [] xs"

section \<open>The JSON codec\<close>

subsection \<open>Lexical structure of JSON text\<close>

text \<open>
  The bytes of a text are cut into the units that the scanner of \<open>encoding/json\<close> tells
  apart: punctuation, string literals, number literals and the three words, with the
  white space between them dropped. A string literal is kept as the string it denotes,
  unquoted as the library does it: escapes are resolved, a surrogate pair of hexadecimal
  escapes is one character, a lone surrogate and every byte that is not well-formed UTF-8
  become the replacement character U+FFFD. Where the scanner stops, the list ends with
  \<open>LBad\<close> or \<open>LBadString\<close> and the error reported there.
\<close>

datatype lexeme =
    LBrace | RBrace | LBrack | RBrack | Colon | Comma
  | LString string | LNumber string | LTrue | LFalse | LNull
  | LBadString error | LBad error

definition dq :: char where "dq = CHR 0x22"
definition bsl :: char where "bsl = CHR 0x5C"

definition isSpace :: "char \<Rightarrow> bool" where
  "isSpace c = (c = CHR '' '' \<or> c = CHR 0x09 \<or> c = CHR 0x0D \<or> c = CHR 0x0A)"

definition isDigit :: "char \<Rightarrow> bool" where
  "isDigit c = (CHR ''0'' \<le> c \<and> c \<le> CHR ''9'')"

definition isHex :: "char \<Rightarrow> bool" where
  "isHex c = (isDigit c \<or> (CHR ''a'' \<le> c \<and> c \<le> CHR ''f'') \<or> (CHR ''A'' \<le> c \<and> c \<le> CHR ''F''))"

definition hexval :: "char \<Rightarrow> nat" where
  "hexval c = (if isDigit c then of_char c - 48
               else if CHR ''a'' \<le> c then of_char c - 87 else of_char c - 55)"

definition getu4 :: "string \<Rightarrow> nat option" where
  "getu4 s = (case s of
      a # b # c # d # _ \<Rightarrow>
        if isHex a \<and> isHex b \<and> isHex c \<and> isHex d
        then Some (((hexval a * 16 + hexval b) * 16 + hexval c) * 16 + hexval d)
        else None
    | _ \<Rightarrow> None)"

definition byte :: "nat \<Rightarrow> char" where
  "byte n = char_of n"

definition RuneError :: string where
  "RuneError = [CHR 0xEF, CHR 0xBF, CHR 0xBD]"

definition EncodeRune :: "nat \<Rightarrow> string" where
  "EncodeRune r =
     (if r < 0x80 then [byte r]
      else if r < 0x800 then [byte (0xC0 + r div 64), byte (0x80 + r mod 64)]
      else if (0xD800 \<le> r \<and> r < 0xE000) \<or> 0x10FFFF < r then RuneError
      else if r < 0x10000
        then [byte (0xE0 + r div 4096), byte (0x80 + (r div 64) mod 64), byte (0x80 + r mod 64)]
      else [byte (0xF0 + r div 262144), byte (0x80 + (r div 4096) mod 64),
            byte (0x80 + (r div 64) mod 64), byte (0x80 + r mod 64)])"

text \<open>
  \<open>utf8.DecodeRuneInString\<close>, as far as its callers here need it: the number of bytes of
  the well-formed UTF-8 sequence at the head of a string that starts with a byte from
  \<open>0x80\<close> on, and \<open>0\<close> when there is none (overlong forms, surrogates and values above
  U+10FFFF are not well-formed).
\<close>

definition cont :: "char \<Rightarrow> bool" where
  "cont c = (CHR 0x80 \<le> c \<and> c \<le> CHR 0xBF)"

definition lead2 :: "char \<Rightarrow> bool" where
  "lead2 c = (CHR 0xC2 \<le> c \<and> c \<le> CHR 0xDF)"

definition lead3 :: "char \<Rightarrow> bool" where
  "lead3 c = (CHR 0xE0 \<le> c \<and> c \<le> CHR 0xEF)"

definition lead4 :: "char \<Rightarrow> bool" where
  "lead4 c = (CHR 0xF0 \<le> c \<and> c \<le> CHR 0xF4)"

definition second3 :: "char \<Rightarrow> char \<Rightarrow> bool" where
  "second3 c b = ((if c = CHR 0xE0 then CHR 0xA0 else CHR 0x80) \<le> b \<and>
                  b \<le> (if c = CHR 0xED then CHR 0x9F else CHR 0xBF))"

definition second4 :: "char \<Rightarrow> char \<Rightarrow> bool" where
  "second4 c b = ((if c = CHR 0xF0 then CHR 0x90 else CHR 0x80) \<le> b \<and>
                  b \<le> (if c = CHR 0xF4 then CHR 0x8F else CHR 0xBF))"

definition DecodeRune_size :: "string \<Rightarrow> nat" where
  "DecodeRune_size s =
     (if s = [] then 0
      else if lead2 (s ! 0) then
        (if 2 \<le> length s \<and> cont (s ! 1) then 2 else 0)
      else if lead3 (s ! 0) then
        (if 3 \<le> length s \<and> second3 (s ! 0) (s ! 1) \<and> cont (s ! 2) then 3 else 0)
      else if lead4 (s ! 0) then
        (if 4 \<le> length s \<and> second4 (s ! 0) (s ! 1) \<and> cont (s ! 2) \<and> cont (s ! 3) then 4 else 0)
      else 0)"

definition unescape :: "char \<Rightarrow> char option" where
  "unescape e =
     (if e = CHR ''b'' then Some (CHR 0x08)
      else if e = CHR ''f'' then Some (CHR 0x0C)
      else if e = CHR ''n'' then Some (CHR 0x0A)
      else if e = CHR ''r'' then Some (CHR 0x0D)
      else if e = CHR ''t'' then Some (CHR 0x09)
      else if e = bsl \<or> e = CHR ''/'' \<or> e = dq then Some e
      else None)"

definition emit :: "string \<Rightarrow> error + (string \<times> string) \<Rightarrow> error + (string \<times> string)" where
  "emit bs r = (case r of Inl e \<Rightarrow> Inl e | Inr (s, rest) \<Rightarrow> Inr (bs @ s, rest))"

definition surrogate_pair :: "nat \<Rightarrow> string \<Rightarrow> nat option" where
  "surrogate_pair rr s =
     (case s of
        b # u # s' \<Rightarrow>
          if b = bsl \<and> u = CHR ''u'' then
            (case getu4 s' of
               Some rr1 \<Rightarrow>
                 if rr < 0xDC00 \<and> 0xDC00 \<le> rr1 \<and> rr1 < 0xE000
                 then Some (0x10000 + (rr - 0xD800) * 0x400 + (rr1 - 0xDC00))
                 else None
             | None \<Rightarrow> None)
          else None
      | _ \<Rightarrow> None)"

fun scan_string :: "string \<Rightarrow> error + (string \<times> string)" where
  "scan_string [] = Inl ErrUnexpectedEOF"
| "scan_string (c # cs) =
     (if c = dq then Inr ([], cs)
      else if c = bsl then
        (case cs of
           [] \<Rightarrow> Inl ErrUnexpectedEOF
         | e # cs' \<Rightarrow>
             if e = CHR ''u'' then
               (case getu4 cs' of
                  None \<Rightarrow> if length cs' < 4 \<and> list_all isHex cs' then Inl ErrUnexpectedEOF
                           else Inl SyntaxError
                | Some rr \<Rightarrow>
                    if 0xD800 \<le> rr \<and> rr < 0xE000 then
                      (case surrogate_pair rr (drop 4 cs') of
                         Some r \<Rightarrow> emit (EncodeRune r) (scan_string (drop 10 cs'))
                       | None \<Rightarrow> emit RuneError (scan_string (drop 4 cs')))
                    else emit (EncodeRune rr) (scan_string (drop 4 cs')))
             else
               (case unescape e of
                  None \<Rightarrow> Inl SyntaxError
                | Some b \<Rightarrow> emit [b] (scan_string cs')))
      else if c < CHR 0x20 then Inl SyntaxError
      else if c < CHR 0x80 then emit [c] (scan_string cs)
      else
        (case DecodeRune_size (c # cs) of
           0 \<Rightarrow> emit RuneError (scan_string cs)
         | Suc n \<Rightarrow> emit (c # take n cs) (scan_string (drop n cs))))"

definition scan_exp :: "string \<Rightarrow> string \<Rightarrow> error + (string \<times> string)" where
  "scan_exp pre r =
     (case r of
        [] \<Rightarrow> Inr (pre, [])
      | e # r' \<Rightarrow>
          if e = CHR ''e'' \<or> e = CHR ''E'' then
            (let sg = (case r' of [] \<Rightarrow> [] | s # _ \<Rightarrow> if s = CHR ''+'' \<or> s = CHR ''-'' then [s] else []);
                 r'' = drop (length sg) r'
             in case r'' of
                  [] \<Rightarrow> Inl ErrUnexpectedEOF
                | d # _ \<Rightarrow>
                    if isDigit d
                    then Inr (pre @ [e] @ sg @ takeWhile isDigit r'', dropWhile isDigit r'')
                    else Inl SyntaxError)
          else Inr (pre, r))"

definition scan_frac :: "string \<Rightarrow> string \<Rightarrow> error + (string \<times> string)" where
  "scan_frac pre r =
     (case r of
        [] \<Rightarrow> Inr (pre, [])
      | p # r' \<Rightarrow>
          if p = CHR ''.'' then
            (case r' of
               [] \<Rightarrow> Inl ErrUnexpectedEOF
             | d # _ \<Rightarrow>
                 if isDigit d
                 then scan_exp (pre @ [p] @ takeWhile isDigit r') (dropWhile isDigit r')
                 else Inl SyntaxError)
          else scan_exp pre r)"

definition scan_number :: "string \<Rightarrow> error + (string \<times> string)" where
  "scan_number s =
     (let sg = (case s of [] \<Rightarrow> [] | c # _ \<Rightarrow> if c = CHR ''-'' then [c] else []);
          r = drop (length sg) s
      in case r of
           [] \<Rightarrow> Inl ErrUnexpectedEOF
         | c # r' \<Rightarrow>
             if c = CHR ''0'' then scan_frac (sg @ [c]) r'
             else if isDigit c
               then scan_frac (sg @ c # takeWhile isDigit r') (dropWhile isDigit r')
             else Inl SyntaxError)"

fun scan_literal :: "string \<Rightarrow> string \<Rightarrow> error + string" where
  "scan_literal [] cs = Inr cs"
| "scan_literal (x # xs) [] = Inl ErrUnexpectedEOF"
| "scan_literal (x # xs) (c # cs) = (if c = x then scan_literal xs cs else Inl SyntaxError)"


lemma emit_Inr: "emit bs r = Inr (s, rest) \<Longrightarrow> \<exists>s'. r = Inr (s', rest)"
  by (auto simp: emit_def split: sum.splits)

lemma scan_string_length: "scan_string cs = Inr (s, rest) \<Longrightarrow> length rest \<le> length cs"
proof (induction cs arbitrary: s rule: scan_string.induct)
  case 1
  then show ?case by simp
next
  case (2 c cs)
  show ?case
    using "2.prems" "2.IH"
    by (fastforce simp: Let_def split: if_splits list.splits option.splits nat.splits
          dest!: emit_Inr)
qed

lemma scan_exp_length: "scan_exp pre r = Inr (lit, rest) \<Longrightarrow> length rest \<le> length r"
  by (auto simp: scan_exp_def Let_def split: list.splits if_splits
        intro: le_trans [OF length_dropWhile_le])

lemma scan_frac_length: "scan_frac pre r = Inr (lit, rest) \<Longrightarrow> length rest \<le> length r"
  by (auto simp: scan_frac_def split: list.splits if_splits
        dest!: scan_exp_length intro: le_trans [OF _ length_dropWhile_le] le_SucI)

lemma scan_number_length:
  "scan_number (c # cs) = Inr (lit, rest) \<Longrightarrow> length rest \<le> length cs"
  by (auto simp: scan_number_def Let_def split: list.splits if_splits
        dest!: scan_frac_length intro: le_trans [OF _ length_dropWhile_le] le_SucI)

lemma scan_literal_length: "scan_literal xs cs = Inr rest \<Longrightarrow> length rest \<le> length cs"
  by (induction xs cs rule: scan_literal.induct) (auto split: if_splits)

function lex :: "string \<Rightarrow> lexeme list" where
  "lex [] = []"
| "lex (c # cs) =
     (if isSpace c then lex cs
      else if c = CHR ''{'' then LBrace # lex cs
      else if c = CHR ''}'' then RBrace # lex cs
      else if c = CHR ''['' then LBrack # lex cs
      else if c = CHR '']'' then RBrack # lex cs
      else if c = CHR '':'' then Colon # lex cs
      else if c = CHR '','' then Comma # lex cs
      else if c = dq then
        (case scan_string cs of
           Inl e \<Rightarrow> [LBadString e]
         | Inr (s, rest) \<Rightarrow> LString s # lex rest)
      else if c = CHR ''-'' \<or> isDigit c then
        (case scan_number (c # cs) of
           Inl e \<Rightarrow> [LBad e]
         | Inr (lit, rest) \<Rightarrow> LNumber lit # lex rest)
      else if c = CHR ''t'' then
        (case scan_literal ''rue'' cs of Inl e \<Rightarrow> [LBad e] | Inr rest \<Rightarrow> LTrue # lex rest)
      else if c = CHR ''f'' then
        (case scan_literal ''alse'' cs of Inl e \<Rightarrow> [LBad e] | Inr rest \<Rightarrow> LFalse # lex rest)
      else if c = CHR ''n'' then
        (case scan_literal ''ull'' cs of Inl e \<Rightarrow> [LBad e] | Inr rest \<Rightarrow> LNull # lex rest)
      else [LBad SyntaxError])"
  by pat_completeness auto
termination
  by (relation "measure length")
     (auto dest: scan_string_length scan_number_length scan_literal_length
           simp: less_Suc_eq_le)

text \<open>
  A number literal does not fit a \<open>float64\<close> when it rounds to an infinity, that is when
  its magnitude is at least \<open>2^1024 - 2^970\<close>, halfway between the largest finite
  \<open>float64\<close> and \<open>2^1024\<close>. The library then reports an \<open>UnmarshalTypeError\<close>.
\<close>

definition digits_val :: "string \<Rightarrow> nat" where
  "digits_val ds = foldl (\<lambda>n c. 10 * n + (of_char c - 48)) 0 ds"

definition float64_overflows :: "string \<Rightarrow> bool" where
  "float64_overflows lit =
     (let s = (case lit of [] \<Rightarrow> [] | c # r \<Rightarrow> if c = CHR ''-'' then r else lit);
          ip = takeWhile isDigit s;
          r1 = dropWhile isDigit s;
          fp = (case r1 of [] \<Rightarrow> [] | p # x \<Rightarrow> if p = CHR ''.'' then takeWhile isDigit x else []);
          r2 = (case r1 of [] \<Rightarrow> [] | p # x \<Rightarrow> if p = CHR ''.'' then dropWhile isDigit x else r1);
          ex = (case r2 of
                  [] \<Rightarrow> 0
                | _ # x \<Rightarrow>
                    (case x of
                       [] \<Rightarrow> 0
                     | g # y \<Rightarrow>
                         if g = CHR ''-'' then - int (digits_val y)
                         else if g = CHR ''+'' then int (digits_val y)
                         else int (digits_val x)));
          mant = int (digits_val (ip @ fp));
          e10 = ex - int (length fp)
      in if 0 \<le> e10 then 2 ^ 1024 - 2 ^ 970 \<le> mant * 10 ^ nat e10
         else (2 ^ 1024 - 2 ^ 970) * 10 ^ nat (- e10) \<le> mant)"

subsection \<open>The token reader\<close>

text \<open>
  \<open>Decoder.Token\<close>. The state tells what may come next; a colon and a comma are passed
  over on the way to the next token; an opening delimiter pushes the state and a closing
  one pops it. A number is converted to \<open>float64\<close> for its token, which fails when it is
  out of range. \<open>Decoder.More\<close> looks whether the next byte is neither \<open>]\<close> nor \<open>}\<close>.
\<close>

datatype tokenState =
    tokenTopValue | tokenArrayStart | tokenArrayValue | tokenArrayComma
  | tokenObjectStart | tokenObjectKey | tokenObjectColon | tokenObjectValue | tokenObjectComma

datatype token = Delim char | TString string | TFloat64 string | TBool bool | TNil

record Decoder =
  input :: "lexeme list"
  tokenState :: tokenState
  tokenStack :: "tokenState list"

definition NewDecoder :: "string \<Rightarrow> Decoder" where
  "NewDecoder b = \<lparr>input = lex b, tokenState = tokenTopValue, tokenStack = []\<rparr>"

definition tokenValueAllowed :: "tokenState \<Rightarrow> bool" where
  "tokenValueAllowed st =
     (st = tokenTopValue \<or> st = tokenArrayStart \<or> st = tokenArrayValue \<or> st = tokenObjectValue)"

definition tokenValueEnd :: "tokenState \<Rightarrow> tokenState" where
  "tokenValueEnd st =
     (if st = tokenArrayStart \<or> st = tokenArrayValue then tokenArrayComma
      else if st = tokenObjectValue then tokenObjectComma
      else st)"

definition scalar :: "Decoder \<Rightarrow> lexeme list \<Rightarrow> token \<Rightarrow> (error + token) \<times> Decoder" where
  "scalar d ls t =
     (if \<not> tokenValueAllowed (tokenState d) then (Inl SyntaxError, d)
      else (Inr t, d\<lparr>input := ls, tokenState := tokenValueEnd (tokenState d)\<rparr>))"

definition closing :: "Decoder \<Rightarrow> lexeme list \<Rightarrow> char \<Rightarrow> (error + token) \<times> Decoder" where
  "closing d ls c =
     (case rev (tokenStack d) of
        [] \<Rightarrow> (Inl PanicIndexOutOfRange, d)
      | st # stk \<Rightarrow> (Inr (Delim c), \<lparr>input = ls, tokenState = tokenValueEnd st, tokenStack = rev stk\<rparr>))"

fun Token_loop :: "lexeme list \<Rightarrow> Decoder \<Rightarrow> (error + token) \<times> Decoder" where
  "Token_loop [] d = (Inl EOF, d)"
| "Token_loop (l # ls) d =
     (case l of
        LBrack \<Rightarrow>
          if \<not> tokenValueAllowed (tokenState d) then (Inl SyntaxError, d)
          else (Inr (Delim (CHR ''['')),
                \<lparr>input = ls, tokenState = tokenArrayStart,
                 tokenStack = tokenStack d @ [tokenState d]\<rparr>)
      | RBrack \<Rightarrow>
          if tokenState d \<noteq> tokenArrayStart \<and> tokenState d \<noteq> tokenArrayComma
          then (Inl SyntaxError, d)
          else closing d ls (CHR '']'')
      | LBrace \<Rightarrow>
          if \<not> tokenValueAllowed (tokenState d) then (Inl SyntaxError, d)
          else (Inr (Delim (CHR ''{'')),
                \<lparr>input = ls, tokenState = tokenObjectStart,
                 tokenStack = tokenStack d @ [tokenState d]\<rparr>)
      | RBrace \<Rightarrow>
          if tokenState d \<noteq> tokenObjectStart \<and> tokenState d \<noteq> tokenObjectComma
          then (Inl SyntaxError, d)
          else closing d ls (CHR ''}'')
      | Colon \<Rightarrow>
          if tokenState d \<noteq> tokenObjectColon then (Inl SyntaxError, d)
          else Token_loop ls (d\<lparr>input := ls, tokenState := tokenObjectValue\<rparr>)
      | Comma \<Rightarrow>
          if tokenState d = tokenArrayComma
            then Token_loop ls (d\<lparr>input := ls, tokenState := tokenArrayValue\<rparr>)
          else if tokenState d = tokenObjectComma
            then Token_loop ls (d\<lparr>input := ls, tokenState := tokenObjectKey\<rparr>)
          else (Inl SyntaxError, d)
      | LString s \<Rightarrow>
          if tokenState d = tokenObjectStart \<or> tokenState d = tokenObjectKey
          then (Inr (TString s), d\<lparr>input := ls, tokenState := tokenObjectColon\<rparr>)
          else scalar d ls (TString s)
      | LBadString e \<Rightarrow>
          if tokenState d = tokenObjectStart \<or> tokenState d = tokenObjectKey
             \<or> tokenValueAllowed (tokenState d)
          then (Inl e, d) else (Inl SyntaxError, d)
      | LNumber lit \<Rightarrow>
          if \<not> tokenValueAllowed (tokenState d) then (Inl SyntaxError, d)
          else if float64_overflows lit then (Inl UnmarshalTypeError, d)
          else scalar d ls (TFloat64 lit)
      | LTrue \<Rightarrow> scalar d ls (TBool True)
      | LFalse \<Rightarrow> scalar d ls (TBool False)
      | LNull \<Rightarrow> scalar d ls TNil
      | LBad e \<Rightarrow>
          if tokenValueAllowed (tokenState d) then (Inl e, d) else (Inl SyntaxError, d))"

definition Token :: "Decoder \<Rightarrow> (error + token) \<times> Decoder" where
  "Token d = Token_loop (input d) d"

definition More :: "Decoder \<Rightarrow> bool" where
  "More d = (case input d of [] \<Rightarrow> False | l # _ \<Rightarrow> l \<noteq> RBrack \<and> l \<noteq> RBrace)"

lemma Token_loop_length:
  "Token_loop ls d = (Inr t, d') \<Longrightarrow> length (input d') < length ls"
proof (induction ls arbitrary: d)
  case Nil
  then show ?case by simp
next
  case (Cons l ls)
  show ?case
  proof (cases l)
    case Colon
    with Cons.prems Cons.IH [of "d\<lparr>input := ls, tokenState := tokenObjectValue\<rparr>"]
    show ?thesis by (auto split: if_splits)
  next
    case Comma
    with Cons.prems Cons.IH [of "d\<lparr>input := ls, tokenState := tokenArrayValue\<rparr>"]
      Cons.IH [of "d\<lparr>input := ls, tokenState := tokenObjectKey\<rparr>"]
    show ?thesis by (auto split: if_splits)
  qed (use Cons.prems in \<open>auto simp: scalar_def closing_def split: if_splits list.splits\<close>)
qed

lemma Token_length:
  "Token d = (Inr t, d') \<Longrightarrow> length (input d') < length (input d)"
  unfolding Token_def by (rule Token_loop_length)

subsection \<open>The duplicate scan\<close>

text \<open>
  \<open>CheckDuplicate\<close>, with its two loops as functions of their own. The tests on the
  length of the remaining input are not in the source: they make the termination of
  the mutual recursion evident. A successful \<open>Token\<close> call consumes input
  (\<open>Token_length\<close>), so the branches that return \<open>NoProgress\<close> are never taken.
\<close>

function CheckDuplicate :: "Decoder \<Rightarrow> error option \<times> Decoder"
  and CheckDuplicate_object :: "Decoder \<Rightarrow> string set \<Rightarrow> error option \<times> Decoder"
  and CheckDuplicate_array :: "Decoder \<Rightarrow> error option \<times> Decoder"
where
  "CheckDuplicate d =
     (case Token d of
        (Inl err, d1) \<Rightarrow> (Some err, d1)
      | (Inr t, d1) \<Rightarrow>
          (case t of
             Delim delim \<Rightarrow>
               if delim = CHR ''{'' then CheckDuplicate_object d1 {}
               else if delim = CHR ''['' then CheckDuplicate_array d1
               else (None, d1)
           | _ \<Rightarrow> (None, d1)))"
| "CheckDuplicate_object d seen =
     (if More d then
        (case Token d of
           (Inl err, d1) \<Rightarrow> (Some err, d1)
         | (Inr t, d1) \<Rightarrow>
             (case t of
                TString key \<Rightarrow>
                  if key \<in> seen then (Some (ErrJSONDuplicate key), d1)
                  else
                    (case CheckDuplicate d1 of
                       (Some err, d2) \<Rightarrow> (Some err, d2)
                     | (None, d2) \<Rightarrow>
                         if length (input d2) < length (input d)
                         then CheckDuplicate_object d2 (insert key seen)
                         else (Some NoProgress, d2))
              | _ \<Rightarrow> (Some PanicTypeAssertion, d1)))
      else
        (case Token d of
           (Inl err, d1) \<Rightarrow> (Some err, d1)
         | (Inr _, d1) \<Rightarrow> (None, d1)))"
| "CheckDuplicate_array d =
     (if More d then
        (case CheckDuplicate d of
           (Some err, d1) \<Rightarrow> (Some err, d1)
         | (None, d1) \<Rightarrow>
             if length (input d1) < length (input d)
             then CheckDuplicate_array d1
             else (Some NoProgress, d1))
      else
        (case Token d of
           (Inl err, d1) \<Rightarrow> (Some err, d1)
         | (Inr _, d1) \<Rightarrow> (None, d1)))"
  by pat_completeness auto
termination
  by (relation "measure (\<lambda>x. case x of
          Inl d \<Rightarrow> 2 * length (input d) + 1
        | Inr (Inl (d, seen)) \<Rightarrow> 2 * length (input d)
        | Inr (Inr d) \<Rightarrow> 2 * length (input d) + 2)")
     (auto dest: Token_length sym [THEN Token_length])


subsection \<open>json.Unmarshal into a map\<close>

text \<open>
  JSON values as \<open>json.Unmarshal\<close> reads them, with the members of an object in text
  order, and the parser that builds them from the lexemes. \<open>toNative\<close> is the value that
  the library stores for a JSON value in an \<open>any\<close>: a native map for an object, where a
  later member of the same key replaces an earlier one.
\<close>

datatype json =
    JNull | JBool bool | JNumber string | JString string
  | JArray "json list" | JObject "(string \<times> json) list"

function parse_value :: "lexeme list \<Rightarrow> (json \<times> lexeme list) option"
  and parse_members :: "lexeme list \<Rightarrow> ((string \<times> json) list \<times> lexeme list) option"
  and parse_elements :: "lexeme list \<Rightarrow> (json list \<times> lexeme list) option"
where
  "parse_value [] = None"
| "parse_value (l # ls) =
     (case l of
        LNull \<Rightarrow> Some (JNull, ls)
      | LTrue \<Rightarrow> Some (JBool True, ls)
      | LFalse \<Rightarrow> Some (JBool False, ls)
      | LNumber lit \<Rightarrow> Some (JNumber lit, ls)
      | LString s \<Rightarrow> Some (JString s, ls)
      | LBrace \<Rightarrow>
          (case ls of
             RBrace # ls' \<Rightarrow> Some (JObject [], ls')
           | _ \<Rightarrow>
               (case parse_members ls of
                  None \<Rightarrow> None
                | Some (kvs, ls') \<Rightarrow> Some (JObject kvs, ls')))
      | LBrack \<Rightarrow>
          (case ls of
             RBrack # ls' \<Rightarrow> Some (JArray [], ls')
           | _ \<Rightarrow>
               (case parse_elements ls of
                  None \<Rightarrow> None
                | Some (xs, ls') \<Rightarrow> Some (JArray xs, ls')))
      | _ \<Rightarrow> None)"
| "parse_members ls =
     (case ls of
        LString k # Colon # ls1 \<Rightarrow>
          (case parse_value ls1 of
             None \<Rightarrow> None
           | Some (x, ls2) \<Rightarrow>
               (case ls2 of
                  RBrace # ls3 \<Rightarrow> Some ([(k, x)], ls3)
                | Comma # ls3 \<Rightarrow>
                    if length ls3 < length ls then
                      (case parse_members ls3 of
                         None \<Rightarrow> None
                       | Some (kvs, ls4) \<Rightarrow> Some ((k, x) # kvs, ls4))
                    else None
                | _ \<Rightarrow> None))
      | _ \<Rightarrow> None)"
| "parse_elements ls =
     (case parse_value ls of
        None \<Rightarrow> None
      | Some (x, ls2) \<Rightarrow>
          (case ls2 of
             RBrack # ls3 \<Rightarrow> Some ([x], ls3)
           | Comma # ls3 \<Rightarrow>
               if length ls3 < length ls then
                 (case parse_elements ls3 of
                    None \<Rightarrow> None
                  | Some (xs, ls4) \<Rightarrow> Some (x # xs, ls4))
               else None
           | _ \<Rightarrow> None))"
  by pat_completeness auto
termination
  by (relation "measure (\<lambda>x. case x of
          Inl ls \<Rightarrow> 2 * length ls
        | Inr (Inl ls) \<Rightarrow> 2 * length ls + 1
        | Inr (Inr ls) \<Rightarrow> 2 * length ls + 1)")
     auto

declare parse_members.simps [simp del] parse_elements.simps [simp del]

fun toNative :: "json \<Rightarrow> val"
  and toNative_members :: "(string \<times> json) list \<Rightarrow> (string \<times> val) list \<Rightarrow> (string \<times> val) list"
where
  "toNative JNull = Nil"
| "toNative (JBool b) = Bool b"
| "toNative (JNumber lit) = (if float64_overflows lit then Nil else Float64 lit)"
| "toNative (JString s) = String s"
| "toNative (JArray xs) = Slice (map toNative xs)"
| "toNative (JObject kvs) = Map (toNative_members kvs [])"
| "toNative_members [] m = m"
| "toNative_members ((k, x) # kvs) m = toNative_members kvs (AList.update k (toNative x) m)"

fun range_error :: "json \<Rightarrow> bool" where
  "range_error (JNumber lit) = float64_overflows lit"
| "range_error (JArray xs) = (\<exists>x \<in> set xs. range_error x)"
| "range_error (JObject kvs) = (\<exists>x \<in> set (map snd kvs). range_error x)"
| "range_error _ = False"

text \<open>
  The scanner of \<open>encoding/json\<close> stops with a syntax error (\<open>exceeded max depth\<close>) on a
  text in which more than \<open>maxNestingDepth\<close> arrays and objects are open at once.
  \<open>nesting_of ls d\<close> is the largest number of them open at once while the lexemes \<open>ls\<close>
  are read, \<open>d\<close> of them being open at the start.
\<close>

definition maxNestingDepth :: nat where
  "maxNestingDepth = 10000"

fun nesting_of :: "lexeme list \<Rightarrow> nat \<Rightarrow> nat" where
  "nesting_of [] d = d"
| "nesting_of (l # ls) d =
     (if l = LBrace \<or> l = LBrack then nesting_of ls (Suc d)
      else if l = RBrace \<or> l = RBrack then max d (nesting_of ls (d - 1))
      else nesting_of ls d)"

text \<open>
  \<open>json.Unmarshal(b, &o.values)\<close> for a map that is not nil. The text is checked first
  (\<open>checkValid\<close>): one JSON value and nothing after it, nested no deeper than the
  scanner allows; otherwise nothing is stored. An object is then stored member by
  member into the map as it is, so that entries under keys that the text does not name
  stay; a number outside \<open>float64\<close> is reported once the rest has been stored. The text
  \<open>null\<close> sets the map to nil, which the model writes \<open>[]\<close> like the empty map. Any other
  value cannot be stored into a map and leaves it untouched.
\<close>

definition json_Unmarshal ::
  "string \<Rightarrow> (string \<times> val) list \<Rightarrow> error option \<times> (string \<times> val) list" where
  "json_Unmarshal b m =
     (case parse_value (lex b) of
        Some (j, []) \<Rightarrow>
          (if maxNestingDepth < nesting_of (lex b) 0 then (Some SyntaxError, m)
           else (case j of
              JObject kvs \<Rightarrow>
                (if range_error j then Some UnmarshalTypeError else None,
                 toNative_members kvs m)
            | JNull \<Rightarrow> (None, [])
            | _ \<Rightarrow> (Some UnmarshalTypeError, m)))
      | _ \<Rightarrow> (Some SyntaxError, m))"

subsection \<open>The order-recovering pass\<close>

text \<open>
  \<open>decode\<close> and \<open>decodeSlice\<close>, their \<open>for\<close> loops being \<open>decode_loop\<close> and
  \<open>decodeSlice_loop\<close>. In Go the value map and the slices are shared with the caller,
  so what a nested call has stored is there for the caller even when the call fails:
  the model hands the map or slice back and stores it in either case. \<open>decode_shift\<close> is
  the loop that moves a repeated key out of its place, \<open>decode_key\<close> the whole treatment
  of a key. The tests on the length of the remaining input serve termination only, as
  in the duplicate scan.
\<close>

function decode_shift :: "string list \<Rightarrow> string \<Rightarrow> nat \<Rightarrow> string list" where
  "decode_shift ks key j =
     (if j < length ks
      then (if ks ! j = key then take j ks @ drop (j + 1) ks @ [last ks]
            else decode_shift ks key (j + 1))
      else ks)"
  by pat_completeness auto
termination
  by (relation "measure (\<lambda>(ks, key, j). length ks - j)") auto

declare decode_shift.simps [simp del]

definition decode_key :: "string list \<Rightarrow> string set \<Rightarrow> string \<Rightarrow> error + string list" where
  "decode_key ks hasKey key =
     (if key \<in> hasKey then
        (let ks' = decode_shift ks key 0
         in if ks' = [] then Inl PanicIndexOutOfRange
            else Inr (ks'[length ks' - 1 := key]))
      else Inr (ks @ [key]))"

function decode_loop ::
    "Decoder \<Rightarrow> OrderedMap \<Rightarrow> string set \<Rightarrow> error option \<times> Decoder \<times> OrderedMap"
  and decodeSlice_loop ::
    "Decoder \<Rightarrow> val list \<Rightarrow> nat \<Rightarrow> error option \<times> Decoder \<times> val list"
where
  "decode_loop dec m hasKey =
     (case Token dec of
        (Inl err, dec1) \<Rightarrow> (Some err, dec1, m)
      | (Inr token, dec1) \<Rightarrow>
          if token = Delim (CHR ''}'') then (None, dec1, m)
          else
            (case token of
               TString key \<Rightarrow>
                 (case decode_key (keys m) hasKey key of
                    Inl err \<Rightarrow> (Some err, dec1, m)
                  | Inr ks \<Rightarrow>
                      (case Token dec1 of
                         (Inl err, dec2) \<Rightarrow> (Some err, dec2, m\<lparr>keys := ks\<rparr>)
                       | (Inr token2, dec2) \<Rightarrow>
                           (case token2 of
                              Delim delim \<Rightarrow>
                                if delim = CHR ''{'' then
                                  (case Get m key of
                                     Map vs \<Rightarrow>
                                       (case decode_loop dec2 \<lparr>keys = [], values = vs\<rparr> {} of
                                          (Some err, dec3, newMap) \<Rightarrow>
                                            (Some err, dec3,
                                             m\<lparr>keys := ks,
                                               values := AList.update key (Map (values newMap)) (values m)\<rparr>)
                                        | (None, dec3, newMap) \<Rightarrow>
                                            if length (input dec3) < length (input dec) then
                                              decode_loop dec3
                                                (m\<lparr>keys := ks,
                                                   values := AList.update key
                                                     (OMap (keys newMap) (values newMap)) (values m)\<rparr>)
                                                (insert key hasKey)
                                            else (Some NoProgress, dec3, m\<lparr>keys := ks\<rparr>))
                                   | OMap oks ovs \<Rightarrow>
                                       (case decode_loop dec2 \<lparr>keys = [], values = ovs\<rparr> {} of
                                          (Some err, dec3, newMap) \<Rightarrow>
                                            (Some err, dec3,
                                             m\<lparr>keys := ks,
                                               values := AList.update key (OMap oks (values newMap)) (values m)\<rparr>)
                                        | (None, dec3, newMap) \<Rightarrow>
                                            if length (input dec3) < length (input dec) then
                                              decode_loop dec3
                                                (m\<lparr>keys := ks,
                                                   values := AList.update key
                                                     (OMap (keys newMap) (values newMap)) (values m)\<rparr>)
                                                (insert key hasKey)
                                            else (Some NoProgress, dec3, m\<lparr>keys := ks\<rparr>))
                                   | _ \<Rightarrow>
                                       (case decode_loop dec2 \<lparr>keys = [], values = []\<rparr> {} of
                                          (Some err, dec3, _) \<Rightarrow> (Some err, dec3, m\<lparr>keys := ks\<rparr>)
                                        | (None, dec3, _) \<Rightarrow>
                                            if length (input dec3) < length (input dec) then
                                              decode_loop dec3 (m\<lparr>keys := ks\<rparr>) (insert key hasKey)
                                            else (Some NoProgress, dec3, m\<lparr>keys := ks\<rparr>)))
                                else if delim = CHR ''['' then
                                  (case Get m key of
                                     Slice vs \<Rightarrow>
                                       (case decodeSlice_loop dec2 vs 0 of
                                          (Some err, dec3, vs') \<Rightarrow>
                                            (Some err, dec3,
                                             m\<lparr>keys := ks,
                                               values := AList.update key (Slice vs') (values m)\<rparr>)
                                        | (None, dec3, vs') \<Rightarrow>
                                            if length (input dec3) < length (input dec) then
                                              decode_loop dec3
                                                (m\<lparr>keys := ks,
                                                   values := AList.update key (Slice vs') (values m)\<rparr>)
                                                (insert key hasKey)
                                            else (Some NoProgress, dec3, m\<lparr>keys := ks\<rparr>))
                                   | _ \<Rightarrow>
                                       (case decodeSlice_loop dec2 [] 0 of
                                          (Some err, dec3, _) \<Rightarrow> (Some err, dec3, m\<lparr>keys := ks\<rparr>)
                                        | (None, dec3, _) \<Rightarrow>
                                            if length (input dec3) < length (input dec) then
                                              decode_loop dec3 (m\<lparr>keys := ks\<rparr>) (insert key hasKey)
                                            else (Some NoProgress, dec3, m\<lparr>keys := ks\<rparr>)))
                                else decode_loop dec2 (m\<lparr>keys := ks\<rparr>) (insert key hasKey)
                            | _ \<Rightarrow> decode_loop dec2 (m\<lparr>keys := ks\<rparr>) (insert key hasKey))))
             | _ \<Rightarrow> (Some PanicTypeAssertion, dec1, m)))"
| "decodeSlice_loop dec s index =
     (case Token dec of
        (Inl err, dec1) \<Rightarrow> (Some err, dec1, s)
      | (Inr token, dec1) \<Rightarrow>
          (case token of
             Delim delim \<Rightarrow>
               if delim = CHR ''{'' then
                 (case (if index < length s then s ! index else Nil) of
                    Map vs \<Rightarrow>
                      (case decode_loop dec1 \<lparr>keys = [], values = vs\<rparr> {} of
                         (Some err, dec2, newMap) \<Rightarrow>
                           (Some err, dec2, s[index := Map (values newMap)])
                       | (None, dec2, newMap) \<Rightarrow>
                           if length (input dec2) < length (input dec) then
                             decodeSlice_loop dec2
                               (s[index := OMap (keys newMap) (values newMap)]) (index + 1)
                           else (Some NoProgress, dec2, s))
                  | OMap oks ovs \<Rightarrow>
                      (case decode_loop dec1 \<lparr>keys = [], values = ovs\<rparr> {} of
                         (Some err, dec2, newMap) \<Rightarrow>
                           (Some err, dec2, s[index := OMap oks (values newMap)])
                       | (None, dec2, newMap) \<Rightarrow>
                           if length (input dec2) < length (input dec) then
                             decodeSlice_loop dec2
                               (s[index := OMap (keys newMap) (values newMap)]) (index + 1)
                           else (Some NoProgress, dec2, s))
                  | _ \<Rightarrow>
                      (case decode_loop dec1 \<lparr>keys = [], values = []\<rparr> {} of
                         (Some err, dec2, _) \<Rightarrow> (Some err, dec2, s)
                       | (None, dec2, _) \<Rightarrow>
                           if length (input dec2) < length (input dec) then
                             decodeSlice_loop dec2 s (index + 1)
                           else (Some NoProgress, dec2, s)))
               else if delim = CHR ''['' then
                 (case (if index < length s then s ! index else Nil) of
                    Slice vs \<Rightarrow>
                      (case decodeSlice_loop dec1 vs 0 of
                         (Some err, dec2, vs') \<Rightarrow> (Some err, dec2, s[index := Slice vs'])
                       | (None, dec2, vs') \<Rightarrow>
                           if length (input dec2) < length (input dec) then
                             decodeSlice_loop dec2 (s[index := Slice vs']) (index + 1)
                           else (Some NoProgress, dec2, s))
                  | _ \<Rightarrow>
                      (case decodeSlice_loop dec1 [] 0 of
                         (Some err, dec2, _) \<Rightarrow> (Some err, dec2, s)
                       | (None, dec2, _) \<Rightarrow>
                           if length (input dec2) < length (input dec) then
                             decodeSlice_loop dec2 s (index + 1)
                           else (Some NoProgress, dec2, s)))
               else if delim = CHR '']'' then (None, dec1, s)
               else decodeSlice_loop dec1 s (index + 1)
           | _ \<Rightarrow> decodeSlice_loop dec1 s (index + 1)))"
  by pat_completeness auto
termination
  by (relation "measure (\<lambda>x. case x of
          Inl (dec, m, hasKey) \<Rightarrow> length (input dec)
        | Inr (dec, s, index) \<Rightarrow> length (input dec))")
     (auto dest!: sym [THEN Token_length])

declare decode_loop.simps [simp del] decodeSlice_loop.simps [simp del]

definition decode :: "Decoder \<Rightarrow> OrderedMap \<Rightarrow> error option \<times> Decoder \<times> OrderedMap" where
  "decode dec m = decode_loop dec m {}"

definition decodeSlice :: "Decoder \<Rightarrow> val list \<Rightarrow> error option \<times> Decoder \<times> val list" where
  "decodeSlice dec s = decodeSlice_loop dec s 0"

text \<open>
  \<open>UnmarshalJSON\<close>: the duplicate scan, \<open>json.Unmarshal\<close> into the value map, a second
  reader that skips the first token, the reset of the keys, and \<open>decode\<close>.
\<close>

definition UnmarshalJSON :: "OrderedMap \<Rightarrow> string \<Rightarrow> error option \<times> OrderedMap" where
  "UnmarshalJSON m b =
     (case fst (CheckDuplicate (NewDecoder b)) of
        Some err \<Rightarrow> (Some err, m)
      | None \<Rightarrow>
          (case json_Unmarshal b (values m) of
             (Some err, vs) \<Rightarrow> (Some err, m\<lparr>values := vs\<rparr>)
           | (None, vs) \<Rightarrow>
               (case Token (NewDecoder b) of
                  (Inl err, dec) \<Rightarrow> (Some err, m\<lparr>values := vs\<rparr>)
                | (Inr _, dec) \<Rightarrow>
                    (case decode dec (m\<lparr>values := vs, keys := []\<rparr>) of
                       (err, _, m') \<Rightarrow> (err, m')))))"


subsection \<open>Encoding\<close>

text \<open>
  The encoder of \<open>encoding/json\<close> with HTML escaping off. \<open>appendString\<close> writes the
  bytes of a string between the quotes: control characters, the quote and the backslash
  escaped, an ill-formed UTF-8 byte as the escape of U+FFFD, U+2028 and U+2029 as escapes. A number
  is written by the literal that the model carries for it (Go writes the shortest
  literal that denotes the same number). A native map is written with its keys sorted;
  an \<open>OrderedMap\<close> is written by its own \<open>MarshalJSON\<close> and then compacted, which fails
  when the text is nested deeper than the scanner allows. \<open>Encoder.Encode\<close> ends what it
  writes with a newline; \<open>MarshalJSON\<close> is the method of this package, its loop being
  \<open>MarshalJSON_loop\<close> with the index \<open>i\<close>.
\<close>

definition hexdigit :: "nat \<Rightarrow> char" where
  "hexdigit n = (''0123456789abcdef'' ! n)"

definition escape_byte :: "char \<Rightarrow> string" where
  "escape_byte c =
     (if c = dq \<or> c = bsl then [bsl, c]
      else if c = CHR 0x08 then [bsl, CHR ''b'']
      else if c = CHR 0x0C then [bsl, CHR ''f'']
      else if c = CHR 0x0A then [bsl, CHR ''n'']
      else if c = CHR 0x0D then [bsl, CHR ''r'']
      else if c = CHR 0x09 then [bsl, CHR ''t'']
      else if c < CHR 0x20
        then [bsl, CHR ''u'', CHR ''0'', CHR ''0'',
              hexdigit (of_char c div 16), hexdigit (of_char c mod 16)]
      else [c])"

fun appendString :: "string \<Rightarrow> string" where
  "appendString [] = []"
| "appendString (c # cs) =
     (if c < CHR 0x80 then escape_byte c @ appendString cs
      else
        (case DecodeRune_size (c # cs) of
           0 \<Rightarrow> bsl # ''ufffd'' @ appendString cs
         | Suc n \<Rightarrow>
             if c # take n cs = [CHR 0xE2, CHR 0x80, CHR 0xA8]
               then bsl # ''u2028'' @ appendString (drop n cs)
             else if c # take n cs = [CHR 0xE2, CHR 0x80, CHR 0xA9]
               then bsl # ''u2029'' @ appendString (drop n cs)
             else c # take n cs @ appendString (drop n cs)))"

definition quote :: "string \<Rightarrow> string" where
  "quote s = dq # appendString s @ [dq]"

definition float64_literal :: "string \<Rightarrow> bool" where
  "float64_literal lit = (scan_number lit = Inr (lit, []) \<and> \<not> float64_overflows lit)"

fun compact :: "string \<Rightarrow> string"
  and compact_string :: "string \<Rightarrow> string"
where
  "compact [] = []"
| "compact (c # cs) =
     (if c = dq then c # compact_string cs
      else if isSpace c then compact cs
      else c # compact cs)"
| "compact_string [] = []"
| "compact_string (c # cs) =
     (if c = dq then c # compact cs
      else if c = bsl then (case cs of [] \<Rightarrow> [c] | e # cs' \<Rightarrow> c # e # compact_string cs')
      else c # compact_string cs)"

fun join :: "string list \<Rightarrow> string" where
  "join [] = []"
| "join [x] = x"
| "join (x # y # ys) = x @ CHR '','' # join (y # ys)"

fun collect :: "(error + 'a) list \<Rightarrow> error + 'a list" where
  "collect [] = Inr []"
| "collect (r # rs) =
     (case r of
        Inl e \<Rightarrow> Inl e
      | Inr x \<Rightarrow> (case collect rs of Inl e \<Rightarrow> Inl e | Inr xs \<Rightarrow> Inr (x # xs)))"

fun MarshalJSON_loop :: "(string \<Rightarrow> error + string) \<Rightarrow> string list \<Rightarrow> nat \<Rightarrow> error + string" where
  "MarshalJSON_loop Encode_value [] i = Inr []"
| "MarshalJSON_loop Encode_value (k # ks) i =
     (case Encode_value k of
        Inl err \<Rightarrow> Inl err
      | Inr e \<Rightarrow>
          (case MarshalJSON_loop Encode_value ks (i + 1) of
             Inl err \<Rightarrow> Inl err
           | Inr rest \<Rightarrow>
               Inr ((if 0 < i then '','' else []) @ quote k @ [CHR 0x0A] @ '':'' @ e @ rest)))"

fun encode :: "val \<Rightarrow> error + string"
  and encode_members :: "(string \<times> val) list \<Rightarrow> (string \<times> (error + string)) list"
where
  "encode Nil = Inr ''null''"
| "encode (Bool b) = Inr (if b then ''true'' else ''false'')"
| "encode (Float64 lit) = (if float64_literal lit then Inr lit else Inl UnsupportedValueError)"
| "encode (String s) = Inr (quote s)"
| "encode (Slice vs) =
     (case collect (map encode vs) of
        Inl err \<Rightarrow> Inl err
      | Inr es \<Rightarrow> Inr (''['' @ join es @ '']''))"
| "encode (Map kvs) =
     (case collect (map (\<lambda>(k, r). case r of Inl err \<Rightarrow> Inl err
                                 | Inr e \<Rightarrow> Inr (quote k @ '':'' @ e))
                    (sort_key fst (encode_members kvs))) of
        Inl err \<Rightarrow> Inl err
      | Inr es \<Rightarrow> Inr (''{'' @ join es @ ''}''))"
| "encode (OMap ks vs) =
     (case MarshalJSON_loop
             (\<lambda>k. case map_of (encode_members vs) k of
                     None \<Rightarrow> Inr (''null'' @ [CHR 0x0A])
                   | Some r \<Rightarrow> (case r of Inl err \<Rightarrow> Inl err | Inr e \<Rightarrow> Inr (e @ [CHR 0x0A])))
             ks 0 of
        Inl err \<Rightarrow> Inl err
      | Inr body \<Rightarrow>
          (if maxNestingDepth < nesting_of (lex (''{'' @ body @ ''}'')) 0
           then Inl MarshalerError
           else Inr (compact (''{'' @ body @ ''}''))))"
| "encode_members [] = []"
| "encode_members ((k, v) # kvs) = (k, encode v) # encode_members kvs"

definition Encode :: "val \<Rightarrow> error + string" where
  "Encode v = (case encode v of Inl err \<Rightarrow> Inl err | Inr e \<Rightarrow> Inr (e @ [CHR 0x0A]))"

definition MarshalJSON :: "OrderedMap \<Rightarrow> error + string" where
  "MarshalJSON m =
     (case MarshalJSON_loop (\<lambda>k. Encode (Get m k)) (keys m) 0 of
        Inl err \<Rightarrow> Inl err
      | Inr body \<Rightarrow> Inr (''{'' @ body @ ''}''))"

subsection \<open>JSON texts\<close>

text \<open>
  The lexemes of the compact text of a JSON value; a byte string is a JSON text of the
  value \<open>j\<close> when \<open>lex\<close> maps it to \<open>lexemes_of j\<close>. \<open>first_dup\<close> is the first repeated
  key met when the value is read from left to right, \<open>has_duplicate\<close> says that some
  object of the value repeats a key, and \<open>duplicated_in k\<close> that some object holds \<open>k\<close>
  twice.
\<close>

fun lexemes_of :: "json \<Rightarrow> lexeme list"
  and comma_elements :: "json list \<Rightarrow> lexeme list"
  and comma_members :: "(string \<times> json) list \<Rightarrow> lexeme list"
where
  "lexemes_of JNull = [LNull]"
| "lexemes_of (JBool b) = [if b then LTrue else LFalse]"
| "lexemes_of (JNumber lit) = [LNumber lit]"
| "lexemes_of (JString s) = [LString s]"
| "lexemes_of (JArray []) = [LBrack, RBrack]"
| "lexemes_of (JArray (x # xs)) = LBrack # lexemes_of x @ comma_elements xs @ [RBrack]"
| "lexemes_of (JObject []) = [LBrace, RBrace]"
| "lexemes_of (JObject ((k, x) # kvs)) =
     LBrace # LString k # Colon # lexemes_of x @ comma_members kvs @ [RBrace]"
| "comma_elements [] = []"
| "comma_elements (x # xs) = Comma # lexemes_of x @ comma_elements xs"
| "comma_members [] = []"
| "comma_members ((k, x) # kvs) = Comma # LString k # Colon # lexemes_of x @ comma_members kvs"

fun first_dup :: "json \<Rightarrow> string option"
  and first_dup_elements :: "json list \<Rightarrow> string option"
  and first_dup_members :: "(string \<times> json) list \<Rightarrow> string set \<Rightarrow> string option"
where
  "first_dup (JArray xs) = first_dup_elements xs"
| "first_dup (JObject kvs) = first_dup_members kvs {}"
| "first_dup JNull = None"
| "first_dup (JBool b) = None"
| "first_dup (JNumber lit) = None"
| "first_dup (JString s) = None"
| "first_dup_elements [] = None"
| "first_dup_elements (x # xs) =
     (case first_dup x of Some k \<Rightarrow> Some k | None \<Rightarrow> first_dup_elements xs)"
| "first_dup_members [] seen = None"
| "first_dup_members ((k, x) # kvs) seen =
     (if k \<in> seen then Some k
      else (case first_dup x of
              Some k' \<Rightarrow> Some k'
            | None \<Rightarrow> first_dup_members kvs (insert k seen)))"

fun has_duplicate :: "json \<Rightarrow> bool" where
  "has_duplicate (JArray xs) = (\<exists>x \<in> set xs. has_duplicate x)"
| "has_duplicate (JObject kvs) =
     (\<not> distinct (map fst kvs) \<or> (\<exists>x \<in> set (map snd kvs). has_duplicate x))"
| "has_duplicate _ = False"

fun duplicated_in :: "string \<Rightarrow> json \<Rightarrow> bool" where
  "duplicated_in k (JArray xs) = (\<exists>x \<in> set xs. duplicated_in k x)"
| "duplicated_in k (JObject kvs) =
     (1 < count_list (map fst kvs) k \<or> (\<exists>x \<in> set (map snd kvs). duplicated_in k x))"
| "duplicated_in k _ = False"

text \<open>
  \<open>scan_error\<close> is the first failure met when the tokens of a JSON value are read from
  left to right: a repeated key, or a number outside \<open>float64\<close>.
\<close>

fun scan_error :: "json \<Rightarrow> error option"
  and scan_error_elements :: "json list \<Rightarrow> error option"
  and scan_error_members :: "(string \<times> json) list \<Rightarrow> string set \<Rightarrow> error option"
where
  "scan_error (JArray xs) = scan_error_elements xs"
| "scan_error (JObject kvs) = scan_error_members kvs {}"
| "scan_error (JNumber lit) = (if float64_overflows lit then Some UnmarshalTypeError else None)"
| "scan_error JNull = None"
| "scan_error (JBool b) = None"
| "scan_error (JString s) = None"
| "scan_error_elements [] = None"
| "scan_error_elements (x # xs) =
     (case scan_error x of Some e \<Rightarrow> Some e | None \<Rightarrow> scan_error_elements xs)"
| "scan_error_members [] seen = None"
| "scan_error_members ((k, x) # kvs) seen =
     (if k \<in> seen then Some (ErrJSONDuplicate k)
      else (case scan_error x of
              Some e \<Rightarrow> Some e
            | None \<Rightarrow> scan_error_members kvs (insert k seen)))"

text \<open>
  What the order-recovering pass makes of a JSON value: every object becomes an ordered
  container with its keys in text order, inside arrays as well. \<open>promote_into\<close> stores the
  promoted members into a value map that may hold further entries. \<open>object_decoded\<close> and
  \<open>array_decoded\<close> state what \<open>decode\<close> and \<open>decodeSlice\<close> do on the text of an object or
  array whose native decoding is already in place.
\<close>

fun promote :: "json \<Rightarrow> val"
  and promote_members :: "(string \<times> json) list \<Rightarrow> (string \<times> val) list"
where
  "promote JNull = Nil"
| "promote (JBool b) = Bool b"
| "promote (JNumber lit) = Float64 lit"
| "promote (JString s) = String s"
| "promote (JArray xs) = Slice (map promote xs)"
| "promote (JObject kvs) = OMap (map fst kvs) (promote_members kvs)"
| "promote_members [] = []"
| "promote_members ((k, x) # kvs) = (k, promote x) # promote_members kvs"

fun promote_into :: "(string \<times> json) list \<Rightarrow> (string \<times> val) list \<Rightarrow> (string \<times> val) list" where
  "promote_into [] vs = vs"
| "promote_into ((k, x) # kvs) vs = promote_into kvs (AList.update k (promote x) vs)"

definition object_decoded :: "(string \<times> json) list \<Rightarrow> bool" where
  "object_decoded kvs =
     (\<forall>m hasKey rest stk st0.
        distinct (map fst kvs) \<and> set (map fst kvs) \<inter> hasKey = {} \<and>
        (\<forall>(k, x) \<in> set kvs. map_of (values m) k = Some (toNative x)) \<longrightarrow>
        decode_loop
          \<lparr>input = tl (comma_members kvs) @ RBrace # rest, tokenState = tokenObjectStart,
           tokenStack = stk @ [st0]\<rparr> m hasKey
        = (None, \<lparr>input = rest, tokenState = tokenValueEnd st0, tokenStack = stk\<rparr>,
           m\<lparr>keys := keys m @ map fst kvs, values := promote_into kvs (values m)\<rparr>))"

definition array_decoded :: "json list \<Rightarrow> bool" where
  "array_decoded xs =
     (\<forall>s idx rest stk st0.
        idx + length xs \<le> length s \<and> (\<forall>i < length xs. s ! (idx + i) = toNative (xs ! i)) \<longrightarrow>
        decodeSlice_loop
          \<lparr>input = tl (comma_elements xs) @ RBrack # rest, tokenState = tokenArrayStart,
           tokenStack = stk @ [st0]\<rparr> s idx
        = (None, \<lparr>input = rest, tokenState = tokenValueEnd st0, tokenStack = stk\<rparr>,
           take idx s @ map promote xs @ drop (idx + length xs) s))"

subsection \<open>Containers built by Set\<close>




text \<open>
  The JSON value that a stored value denotes, and its compact text. A number literal
  ends where the text that follows does not go on like a number (\<open>terminated\<close>).
\<close>

fun json_of :: "val \<Rightarrow> json"
  and json_members :: "(string \<times> val) list \<Rightarrow> (string \<times> json) list"
where
  "json_of Nil = JNull"
| "json_of (Bool b) = JBool b"
| "json_of (Float64 lit) = JNumber lit"
| "json_of (String s) = JString s"
| "json_of (Slice vs) = JArray (map json_of vs)"
| "json_of (Map kvs) = JObject (json_members kvs)"
| "json_of (OMap ks vs) = JObject (json_members vs)"
| "json_members [] = []"
| "json_members ((k, v) # kvs) = (k, json_of v) # json_members kvs"


text \<open>
  The nesting depth of a JSON value: the largest number of arrays and objects inside
  each other, the value itself counted.
\<close>

fun depth :: "json \<Rightarrow> nat"
  and depth_elements :: "json list \<Rightarrow> nat"
  and depth_members :: "(string \<times> json) list \<Rightarrow> nat"
where
  "depth (JArray xs) = Suc (depth_elements xs)"
| "depth (JObject kvs) = Suc (depth_members kvs)"
| "depth JNull = 0"
| "depth (JBool b) = 0"
| "depth (JNumber lit) = 0"
| "depth (JString s) = 0"
| "depth_elements [] = 0"
| "depth_elements (x # xs) = max (depth x) (depth_elements xs)"
| "depth_members [] = 0"
| "depth_members ((k, x) # kvs) = max (depth x) (depth_members kvs)"

definition numchar :: "char \<Rightarrow> bool" where
  "numchar c = (isDigit c \<or> c = CHR ''.'' \<or> c = CHR ''e'' \<or> c = CHR ''E''
                \<or> c = CHR ''+'' \<or> c = CHR ''-'')"

definition terminated :: "string \<Rightarrow> bool" where
  "terminated rest = (case rest of [] \<Rightarrow> True | c # _ \<Rightarrow> \<not> numchar c)"

section \<open>Properties of the container\<close>



lemma map_of_eq_None_fst: "(map_of al k = None) = (k \<notin> fst ` set al)"
  by (simp add: map_of_eq_None_iff)

lemma keys_Set:
  "keys (Set m k v) = (if k \<in> fst ` set (values m) then keys m else keys m @ [k])"
  by (simp add: Set_def Let_def map_of_eq_None_fst)

lemma values_Set: "values (Set m k v) = AList.update k v (values m)"
  by (simp add: Set_def Let_def)

lemma Get_Set: "Get (Set m k v) k' = (if k' = k then v else Get m k')"
  by (simp add: Get_def values_Set update_conv')

lemma dom_values_Set: "fst ` set (values (Set m k v)) = insert k (fst ` set (values m))"
  by (simp add: values_Set dom_update)

lemma Set_foldl_keys:
  "set (keys m) = fst ` set (values m) \<Longrightarrow> distinct (map fst kvs) \<Longrightarrow>
   set (map fst kvs) \<inter> set (keys m) = {} \<Longrightarrow>
   keys (foldl (\<lambda>m (k, v). Set m k v) m kvs) = keys m @ map fst kvs"
proof (induction kvs arbitrary: m)
  case Nil
  then show ?case by simp
next
  case (Cons kv kvs)
  obtain k v where kv: "kv = (k, v)" by (cases kv)
  from Cons.prems kv have notin: "k \<notin> fst ` set (values m)" by auto
  have k1: "keys (Set m k v) = keys m @ [k]"
    using notin by (simp add: keys_Set)
  have inv: "set (keys (Set m k v)) = fst ` set (values (Set m k v))"
    using Cons.prems(1) by (simp add: k1 dom_values_Set)
  have disj: "set (map fst kvs) \<inter> set (keys (Set m k v)) = {}"
    using Cons.prems(2,3) kv by (auto simp: k1)
  have "keys (foldl (\<lambda>m (k, v). Set m k v) (Set m k v) kvs)
        = keys (Set m k v) @ map fst kvs"
    using Cons.IH [OF inv _ disj] Cons.prems(2) by simp
  then show ?case by (simp add: kv k1)
qed

text \<open>
  C3. Setting N distinct keys in order on the empty container makes \<open>Keys\<close> return
  exactly those keys in that order; setting a key that the container already holds
  (the test the code makes is on the value map) stores the new value, leaves \<open>Keys\<close> as
  it was, and leaves every other key's value alone.
\<close>

theorem Set_order_preserved:
  "(distinct (map fst kvs) \<longrightarrow>
      Keys (foldl (\<lambda>m (k, v). Set m k v) New kvs) = map fst kvs) \<and>
   (k \<in> fst ` set (values m) \<longrightarrow>
      Keys (Set m k v) = Keys m \<and> Get (Set m k v) k = v \<and>
      (\<forall>k'. k' \<noteq> k \<longrightarrow> Get (Set m k v) k' = Get m k'))"
proof -
  have "distinct (map fst kvs) \<Longrightarrow>
        keys (foldl (\<lambda>m (k, v). Set m k v) New kvs) = keys New @ map fst kvs"
    by (rule Set_foldl_keys) (simp_all add: New_def)
  then show ?thesis
    by (simp add: Keys_def keys_Set Get_Set New_def)
qed

theorem Set_order_preserved_witness:
  "distinct (map fst [(''b'', Bool True), (''a'', Nil), (''c'', String ''x'')]) \<and>
   Keys (foldl (\<lambda>m (k, v). Set m k v) New
          [(''b'', Bool True), (''a'', Nil), (''c'', String ''x'')]) = [''b'', ''a'', ''c''] \<and>
   ''b'' \<in> fst ` set (values (Set (Set New ''b'' Nil) ''a'' Nil)) \<and>
   Keys (Set (Set (Set New ''b'' Nil) ''a'' Nil) ''b'' (Bool False))
     = Keys (Set (Set New ''b'' Nil) ''a'' Nil) \<and>
   Get (Set (Set (Set New ''b'' Nil) ''a'' Nil) ''b'' (Bool False)) ''b'' = Bool False"
  using Set_order_preserved
    [of "[(''b'', Bool True), (''a'', Nil), (''c'', String ''x'')]"
        "''b''" "Set (Set New ''b'' Nil) ''a'' Nil" "Bool False"]
  by (simp add: values_Set New_def)








text \<open>
  C9. At every position that is negative or not below \<open>Len\<close>, \<open>GetKeyAt\<close> and
  \<open>GetValueAt\<close> end in Go's index-out-of-range panic; at every other position they
  return the key at that position and the value stored under it.
\<close>

theorem positional_access_bounds:
  "(pos < 0 \<or> Len m \<le> pos \<longrightarrow>
      GetKeyAt m pos = Inl PanicIndexOutOfRange \<and>
      GetValueAt m pos = Inl PanicIndexOutOfRange) \<and>
   (0 \<le> pos \<and> pos < Len m \<longrightarrow>
      GetKeyAt m pos = Inr (Keys m ! nat pos) \<and>
      GetValueAt m pos = Inr (Get m (Keys m ! nat pos)))"
  by (auto simp add: GetKeyAt_def GetValueAt_def slice_at_def Len_def Keys_def)

theorem positional_access_bounds_witness:
  "Len (Set (Set New ''a'' (Bool True)) ''b'' Nil) \<le> 2 \<and>
   GetKeyAt (Set (Set New ''a'' (Bool True)) ''b'' Nil) 2 = Inl PanicIndexOutOfRange \<and>
   GetValueAt (Set (Set New ''a'' (Bool True)) ''b'' Nil) (- 1) = Inl PanicIndexOutOfRange \<and>
   0 \<le> (1::int) \<and> 1 < Len (Set (Set New ''a'' (Bool True)) ''b'' Nil) \<and>
   GetKeyAt (Set (Set New ''a'' (Bool True)) ''b'' Nil) 1 = Inr ''b'' \<and>
   GetValueAt (Set (Set New ''a'' (Bool True)) ''b'' Nil) 0 = Inr (Bool True)"
proof -
  let ?m = "Set (Set New ''a'' (Bool True)) ''b'' Nil"
  have k: "keys ?m = [''a'', ''b'']"
    by (simp add: keys_Set values_Set New_def)
  from positional_access_bounds [of 2 ?m] positional_access_bounds [of "- 1" ?m]
    positional_access_bounds [of 1 ?m] positional_access_bounds [of 0 ?m]
  show ?thesis
    by (simp add: Len_def Keys_def k Get_Set)
qed

text \<open>
  C10. \<open>Get\<close> of a key the container does not hold returns \<open>nil\<close>, and so does \<open>Get\<close> of
  a key that is held with the value \<open>nil\<close>: the result of \<open>Get\<close> does not tell the two
  apart, and \<open>Get\<close> returns nothing else.
\<close>

theorem Get_absent_is_nil:
  "(k \<notin> fst ` set (values m) \<longrightarrow> Get m k = Nil) \<and>
   k \<in> fst ` set (values (Set m k Nil)) \<and> Get (Set m k Nil) k = Nil"
  by (simp add: Get_Set dom_values_Set) (simp add: Get_def map_of_eq_None_fst [symmetric])

theorem Get_absent_is_nil_witness:
  "''k'' \<notin> fst ` set (values (Set New ''a'' (Bool True))) \<and>
   Get (Set New ''a'' (Bool True)) ''k'' = Nil \<and>
   Get (Set (Set New ''a'' (Bool True)) ''k'' Nil) ''k'' = Nil"
  using Get_absent_is_nil [of "''k''" "Set New ''a'' (Bool True)"]
  by (simp add: values_Set New_def)

lemma Sort_write_enumerate:
  "n + length ps = length ks \<Longrightarrow>
   foldl (\<lambda>ks' (i, p). ks'[i := Key p]) ks (enumerate n ps) = take n ks @ map Key ps"
proof (induction ps arbitrary: n ks)
  case Nil
  then show ?case by simp
next
  case (Cons p ps)
  from Cons.prems have n: "n < length ks" by simp
  have "foldl (\<lambda>ks' (i, p). ks'[i := Key p]) (ks[n := Key p]) (enumerate (Suc n) ps)
        = take (Suc n) (ks[n := Key p]) @ map Key ps"
    using Cons.prems by (intro Cons.IH) simp
  also have "take (Suc n) (ks[n := Key p]) = take n ks @ [Key p]"
    using n by (simp add: take_Suc_conv_app_nth)
  finally show ?case by simp
qed

lemma Sort_write_map: "length ps = length ks \<Longrightarrow> Sort_write ks ps = map Key ps"
  using Sort_write_enumerate [of 0 ps ks] by (simp add: Sort_write_def)

lemma keys_Sort:
  assumes "\<forall>lt ps. mset (sort_Sort lt ps) = mset ps"
  shows "keys (Sort sort_Sort m lessFunc)
         = map Key (sort_Sort lessFunc (map (\<lambda>key. \<lparr>Key = key, Value = Get m key\<rparr>) (keys m)))"
proof -
  let ?pairs = "map (\<lambda>key. \<lparr>Key = key, Value = Get m key\<rparr>) (keys m)"
  have "mset (sort_Sort lessFunc ?pairs) = mset ?pairs"
    using assms by blast
  then have "length (sort_Sort lessFunc ?pairs) = length ?pairs"
    by (rule mset_eq_length)
  then show ?thesis
    by (simp add: Sort_def Let_def Sort_write_map)
qed

lemma mset_keys_Sort:
  assumes "\<forall>lt ps. mset (sort_Sort lt ps) = mset ps"
  shows "mset (keys (Sort sort_Sort m lessFunc)) = mset (keys m)"
proof -
  let ?pairs = "map (\<lambda>key. \<lparr>Key = key, Value = Get m key\<rparr>) (keys m)"
  have "mset (sort_Sort lessFunc ?pairs) = mset ?pairs"
    using assms by blast
  then have "mset (map Key (sort_Sort lessFunc ?pairs)) = mset (map Key ?pairs)"
    by (metis mset_map)
  also have "map Key ?pairs = keys m" by (simp add: comp_def)
  finally show ?thesis by (simp add: keys_Sort [OF assms])
qed

lemma mset_insert_by: "mset (insert_by lt x xs) = add_mset x (mset xs)"
proof -
  have "mset (takeWhile (lt x) (rev xs)) + mset (dropWhile (lt x) (rev xs)) = mset (rev xs)"
    by (metis mset_append takeWhile_dropWhile_id)
  then show ?thesis
    by (simp add: insert_by_def add.commute)
qed

lemma mset_foldl_insert_by:
  "mset (foldl (\<lambda>ys x. insert_by lt x ys) acc xs) = mset acc + mset xs"
  by (induction xs arbitrary: acc) (simp_all add: mset_insert_by)

lemma mset_insertionSort: "mset (insertionSort lt xs) = mset xs"
  by (simp add: insertionSort_def mset_foldl_insert_by)

text \<open>
  C8. When the procedure given to \<open>SortKeys\<close> sorts a string slice lexicographically
  (its result is ordered bytewise, as Go compares strings, and is a rearrangement of
  what it was given), \<open>Keys\<close> is lexicographically ordered afterwards and \<open>Get\<close> returns
  for every key what it returned before. \<open>SortKeys\<close> and \<open>Sort\<close> leave the value map
  untouched and only rearrange the keys (\<open>sort.Sort\<close> rearranges by swapping).
\<close>

theorem sorting_changes_only_key_order:
  assumes "\<forall>ks. sorted (sortFunc ks) \<and> mset (sortFunc ks) = mset ks"
    and "\<forall>lt ps. mset (sort_Sort lt ps) = mset ps"
  shows "sorted (Keys (SortKeys m sortFunc)) \<and>
         mset (Keys (SortKeys m sortFunc)) = mset (Keys m) \<and>
         (\<forall>k. Get (SortKeys m sortFunc) k = Get m k) \<and>
         values (SortKeys m sortFunc) = values m \<and>
         mset (Keys (Sort sort_Sort m lessFunc)) = mset (Keys m) \<and>
         (\<forall>k. Get (Sort sort_Sort m lessFunc) k = Get m k) \<and>
         values (Sort sort_Sort m lessFunc) = values m"
proof -
  have v: "values (Sort sort_Sort m lessFunc) = values m"
    by (simp add: Sort_def Let_def)
  have "mset (Keys (Sort sort_Sort m lessFunc)) = mset (Keys m)"
    using mset_keys_Sort [OF assms(2)] by (simp add: Keys_def)
  with assms(1) v show ?thesis
    by (simp add: Keys_def SortKeys_def Get_def)
qed

theorem sorting_changes_only_key_order_witness:
  "(\<forall>ks::string list. sorted (sort ks) \<and> mset (sort ks) = mset ks) \<and>
   (\<forall>lt (ps::pair list). mset (insertionSort lt ps) = mset ps) \<and>
   sorted (Keys (SortKeys (Set (Set New ''b'' (Bool True)) ''a'' Nil) sort)) \<and>
   Get (SortKeys (Set (Set New ''b'' (Bool True)) ''a'' Nil) sort) ''b'' = Bool True \<and>
   values (Sort insertionSort (Set (Set New ''b'' (Bool True)) ''a'' Nil)
            (\<lambda>p q. Key p < Key q))
     = values (Set (Set New ''b'' (Bool True)) ''a'' Nil)"
proof -
  let ?m = "Set (Set New ''b'' (Bool True)) ''a'' Nil"
  have a: "\<forall>ks::string list. sorted (sort ks) \<and> mset (sort ks) = mset ks"
    by simp
  have b: "\<forall>lt (ps::pair list). mset (insertionSort lt ps) = mset ps"
    by (simp add: mset_insertionSort)
  have g: "Get ?m ''b'' = Bool True"
    by (simp add: Get_Set)
  from sorting_changes_only_key_order [OF a b, of ?m "\<lambda>p q. Key p < Key q"] a b g
  show ?thesis by simp
qed

section \<open>Properties of the codec\<close>

lemma join_Cons: "join (x # xs) = x @ concat (map (\<lambda>s. CHR '','' # s) xs)"
  by (induction xs arbitrary: x) simp_all

lemma MarshalJSON_loop_Suc:
  "MarshalJSON_loop f ks (Suc i) = Inr body \<Longrightarrow>
   \<exists>es. collect (map f ks) = Inr es \<and>
        body = concat (map (\<lambda>s. CHR '','' # s)
                 (map (\<lambda>(k, e). quote k @ [CHR 0x0A] @ '':'' @ e) (zip ks es)))"
proof (induction ks arbitrary: i body)
  case Nil
  then show ?case by simp
next
  case (Cons k ks)
  from Cons.prems obtain e rest where e: "f k = Inr e"
    and r: "MarshalJSON_loop f ks (Suc (Suc i)) = Inr rest"
    and b: "body = '','' @ quote k @ [CHR 0x0A] @ '':'' @ e @ rest"
    by (auto split: sum.splits)
  from Cons.IH [OF r] obtain es where es: "collect (map f ks) = Inr es"
    and rest: "rest = concat (map (\<lambda>s. CHR '','' # s)
                 (map (\<lambda>(k, e). quote k @ [CHR 0x0A] @ '':'' @ e) (zip ks es)))"
    by blast
  show ?case
    by (rule exI [of _ "e # es"]) (simp add: e es b rest)
qed

lemma MarshalJSON_loop_0:
  "MarshalJSON_loop f ks 0 = Inr body \<Longrightarrow>
   \<exists>es. collect (map f ks) = Inr es \<and>
        body = join (map (\<lambda>(k, e). quote k @ [CHR 0x0A] @ '':'' @ e) (zip ks es))"
proof (cases ks)
  case Nil
  assume "MarshalJSON_loop f ks 0 = Inr body"
  with Nil show ?thesis by simp
next
  case (Cons k ks')
  assume a: "MarshalJSON_loop f ks 0 = Inr body"
  with Cons obtain e rest where e: "f k = Inr e"
    and r: "MarshalJSON_loop f ks' (Suc 0) = Inr rest"
    and b: "body = quote k @ [CHR 0x0A] @ '':'' @ e @ rest"
    by (auto split: sum.splits)
  from MarshalJSON_loop_Suc [OF r] obtain es where es: "collect (map f ks') = Inr es"
    and rest: "rest = concat (map (\<lambda>s. CHR '','' # s)
                 (map (\<lambda>(k, e). quote k @ [CHR 0x0A] @ '':'' @ e) (zip ks' es)))"
    by blast
  show ?thesis
    by (rule exI [of _ "e # es"]) (simp add: Cons e es b rest join_Cons)
qed

lemma collect_map_Inr:
  "collect (map (\<lambda>k. case g k of Inl err \<Rightarrow> Inl err | Inr e \<Rightarrow> Inr (h e)) ks) = Inr es \<Longrightarrow>
   \<exists>es'. collect (map g ks) = Inr es' \<and> es = map h es'"
proof (induction ks arbitrary: es)
  case Nil
  then show ?case by simp
next
  case (Cons k ks)
  then show ?case by (fastforce split: sum.splits)
qed

text \<open>
  C5, as amended. \<open>MarshalJSON\<close> writes \<open>{\<close>, then for each key in order the key as a
  JSON string, a newline, \<open>:\<close>, the encoding of its value and a newline (each
  \<open>Encoder.Encode\<close> ends its output with a newline), consecutive pairs separated by one
  \<open>,\<close> with none after the last, then \<open>}\<close>; the empty container gives exactly \<open>{}\<close>.
\<close>

theorem MarshalJSON_layout:
  "MarshalJSON New = Inr ''{}'' \<and>
   (MarshalJSON m = Inr out \<longrightarrow>
      (\<exists>es. collect (map (\<lambda>k. encode (Get m k)) (keys m)) = Inr es \<and>
         out = ''{'' @ join (map (\<lambda>(k, e). quote k @ [CHR 0x0A] @ '':'' @ e @ [CHR 0x0A])
                              (zip (keys m) es)) @ ''}''))"
proof (intro conjI impI)
  show "MarshalJSON New = Inr ''{}''"
    by (simp add: MarshalJSON_def New_def)
next
  assume "MarshalJSON m = Inr out"
  then obtain body where l: "MarshalJSON_loop (\<lambda>k. Encode (Get m k)) (keys m) 0 = Inr body"
    and out: "out = ''{'' @ body @ ''}''"
    by (auto simp: MarshalJSON_def split: sum.splits)
  from MarshalJSON_loop_0 [OF l] obtain es0
    where c: "collect (map (\<lambda>k. Encode (Get m k)) (keys m)) = Inr es0"
    and body: "body = join (map (\<lambda>(k, e). quote k @ [CHR 0x0A] @ '':'' @ e) (zip (keys m) es0))"
    by blast
  from c obtain es where es: "collect (map (\<lambda>k. encode (Get m k)) (keys m)) = Inr es"
    and es0: "es0 = map (\<lambda>e. e @ [CHR 0x0A]) es"
    unfolding Encode_def using collect_map_Inr [where g = "\<lambda>k. encode (Get m k)" and h = "\<lambda>e. e @ [CHR 0x0A]"]
    by blast
  have "map (\<lambda>(k, e). quote k @ [CHR 0x0A] @ '':'' @ e) (zip (keys m) es0)
        = map (\<lambda>(k, e). quote k @ [CHR 0x0A] @ '':'' @ e @ [CHR 0x0A]) (zip (keys m) es)"
    unfolding es0 by (simp add: zip_map2 split_def)
  with es out body
  show "\<exists>es. collect (map (\<lambda>k. encode (Get m k)) (keys m)) = Inr es \<and>
         out = ''{'' @ join (map (\<lambda>(k, e). quote k @ [CHR 0x0A] @ '':'' @ e @ [CHR 0x0A])
                              (zip (keys m) es)) @ ''}''"
    by auto
qed

theorem MarshalJSON_layout_witness:
  "MarshalJSON New = Inr ''{}'' \<and>
   MarshalJSON (Set (Set New ''b'' (Bool True)) ''a'' Nil)
     = Inr (''{'' @ quote ''b'' @ [CHR 0x0A] @ '':true'' @ [CHR 0x0A] @ '','' @
            quote ''a'' @ [CHR 0x0A] @ '':null'' @ [CHR 0x0A] @ ''}'') \<and>
   (\<exists>es. collect (map (\<lambda>k. encode (Get (Set (Set New ''b'' (Bool True)) ''a'' Nil) k))
                 (keys (Set (Set New ''b'' (Bool True)) ''a'' Nil))) = Inr es \<and>
      ''{'' @ quote ''b'' @ [CHR 0x0A] @ '':true'' @ [CHR 0x0A] @ '','' @
        quote ''a'' @ [CHR 0x0A] @ '':null'' @ [CHR 0x0A] @ ''}''
      = ''{'' @ join (map (\<lambda>(k, e). quote k @ [CHR 0x0A] @ '':'' @ e @ [CHR 0x0A])
                     (zip (keys (Set (Set New ''b'' (Bool True)) ''a'' Nil)) es)) @ ''}'')"
proof -
  let ?m = "Set (Set New ''b'' (Bool True)) ''a'' Nil"
  let ?out = "''{'' @ quote ''b'' @ [CHR 0x0A] @ '':true'' @ [CHR 0x0A] @ '','' @
              quote ''a'' @ [CHR 0x0A] @ '':null'' @ [CHR 0x0A] @ ''}''"
  have e: "MarshalJSON ?m = Inr ?out"
    by code_simp
  from MarshalJSON_layout [of ?m ?out] e show ?thesis
    by blast
qed

text \<open>
  The claim as stated fails: the output for the container holding \<open>a\<close> with the number 1
  is \<open>{"a"\<close>, newline, \<open>:1\<close>, newline, \<open>}\<close>.
\<close>

theorem MarshalJSON_newlines:
  "MarshalJSON (Set New ''a'' (Float64 ''1''))
     = Inr [CHR ''{'', CHR 0x22, CHR ''a'', CHR 0x22, CHR 0x0A, CHR '':'', CHR ''1'', CHR 0x0A, CHR ''}'']"
  by code_simp

subsection \<open>The duplicate scan on JSON texts\<close>

lemma CheckDuplicate_length:
  "CheckDuplicate d = (None, d') \<Longrightarrow> length (input d') < length (input d)"
  "CheckDuplicate_object d seen = (None, d') \<Longrightarrow> length (input d') < length (input d)"
  "CheckDuplicate_array d = (None, d') \<Longrightarrow> length (input d') < length (input d)"
proof (induction d and d seen and d arbitrary: d' and d' and d'
        rule: CheckDuplicate_CheckDuplicate_object_CheckDuplicate_array.induct)
  case (1 d)
  obtain x d1 where T: "Token d = (x, d1)" by (cases "Token d")
  show ?case
  proof (cases x)
    case (Inl e)
    with T "1.prems" show ?thesis by simp
  next
    case (Inr t)
    with T have lt: "length (input d1) < length (input d)" by (auto dest: Token_length)
    show ?thesis
    proof (cases t)
      case (Delim c)
      show ?thesis
      proof (cases "c = CHR ''{''")
        case True
        with T Inr Delim "1.prems" have "CheckDuplicate_object d1 {} = (None, d')" by simp
        with "1.IH"(1) [OF T [symmetric] Inr Delim True] lt show ?thesis by fastforce
      next
        case False
        show ?thesis
        proof (cases "c = CHR ''[''")
          case True
          with False T Inr Delim "1.prems" have "CheckDuplicate_array d1 = (None, d')" by simp
          with "1.IH"(2) [OF T [symmetric] Inr Delim False True] lt show ?thesis by fastforce
        next
          case c: False
          with False T Inr Delim "1.prems" lt show ?thesis by simp
        qed
      qed
    qed (use T Inr "1.prems" lt in auto)
  qed
next
  case (2 d seen)
  obtain x d1 where T: "Token d = (x, d1)" by (cases "Token d")
  show ?case
  proof (cases "More d")
    case False
    with T "2.prems" show ?thesis
      by (auto split: sum.splits dest: Token_length)
  next
    case True
    show ?thesis
    proof (cases x)
      case (Inl e)
      with T True "2.prems" show ?thesis by simp
    next
      case (Inr t)
      with T have lt: "length (input d1) < length (input d)" by (auto dest: Token_length)
      show ?thesis
      proof (cases t)
        case (TString key)
        show ?thesis
        proof (cases "key \<in> seen")
          case True
          with \<open>More d\<close> T Inr TString "2.prems" show ?thesis by simp
        next
          case False
          obtain r d2 where C: "CheckDuplicate d1 = (r, d2)" by (cases "CheckDuplicate d1")
          show ?thesis
          proof (cases r)
            case (Some e)
            with \<open>More d\<close> T Inr TString False C "2.prems" show ?thesis by simp
          next
            case None
            with "2.IH"(1) [OF True T [symmetric] Inr TString False] C
            have l2: "length (input d2) < length (input d1)" by simp
            with lt have g: "length (input d2) < length (input d)" by simp
            with \<open>More d\<close> T Inr TString False C None "2.prems"
            have "CheckDuplicate_object d2 (insert key seen) = (None, d')" by simp
            with "2.IH"(2) [OF True T [symmetric] Inr TString False C [symmetric] None g] g
            show ?thesis by fastforce
          qed
        qed
      qed (use True T Inr "2.prems" in auto)
    qed
  qed
next
  case (3 d)
  show ?case
  proof (cases "More d")
    case False
    with "3.prems" show ?thesis
      by (auto split: sum.splits prod.splits dest: Token_length)
  next
    case True
    obtain r d1 where C: "CheckDuplicate d = (r, d1)" by (cases "CheckDuplicate d")
    show ?thesis
    proof (cases r)
      case (Some e)
      with True C "3.prems" show ?thesis by simp
    next
      case None
      with "3.IH"(1) [OF True] C have g: "length (input d1) < length (input d)" by simp
      with True C None "3.prems" have "CheckDuplicate_array d1 = (None, d')" by simp
      with "3.IH"(2) [OF True C [symmetric] None g] g show ?thesis by fastforce
    qed
  qed
qed


declare CheckDuplicate.simps [simp del] CheckDuplicate_object.simps [simp del]
  CheckDuplicate_array.simps [simp del]

lemma CheckDuplicate_object_unfold:
  "CheckDuplicate_object d seen =
     (if More d then
        (case Token d of
           (Inl err, d1) \<Rightarrow> (Some err, d1)
         | (Inr t, d1) \<Rightarrow>
             (case t of
                TString key \<Rightarrow>
                  if key \<in> seen then (Some (ErrJSONDuplicate key), d1)
                  else
                    (case CheckDuplicate d1 of
                       (Some err, d2) \<Rightarrow> (Some err, d2)
                     | (None, d2) \<Rightarrow> CheckDuplicate_object d2 (insert key seen))
              | _ \<Rightarrow> (Some PanicTypeAssertion, d1)))
      else
        (case Token d of
           (Inl err, d1) \<Rightarrow> (Some err, d1)
         | (Inr _, d1) \<Rightarrow> (None, d1)))"
proof -
  have "length (input d2) < length (input d)"
    if "Token d = (Inr t, d1)" "CheckDuplicate d1 = (None, d2)" for t d1 d2
    using that Token_length [of d t d1] CheckDuplicate_length(1) [of d1 d2] by simp
  then show ?thesis
    by (subst CheckDuplicate_object.simps)
       (auto split: prod.splits sum.splits token.splits option.splits)
qed

lemma CheckDuplicate_array_unfold:
  "CheckDuplicate_array d =
     (if More d then
        (case CheckDuplicate d of
           (Some err, d1) \<Rightarrow> (Some err, d1)
         | (None, d1) \<Rightarrow> CheckDuplicate_array d1)
      else
        (case Token d of
           (Inl err, d1) \<Rightarrow> (Some err, d1)
         | (Inr _, d1) \<Rightarrow> (None, d1)))"
  by (subst CheckDuplicate_array.simps)
     (auto split: prod.splits option.splits dest: CheckDuplicate_length(1))



lemma tokenValueAllowed_not_key:
  "tokenValueAllowed st \<Longrightarrow> st \<noteq> tokenObjectStart \<and> st \<noteq> tokenObjectKey"
  by (auto simp: tokenValueAllowed_def)

lemma Token_scalar:
  assumes "tokenValueAllowed st"
  shows "Token \<lparr>input = LNull # ls, tokenState = st, tokenStack = stk\<rparr>
           = (Inr TNil, \<lparr>input = ls, tokenState = tokenValueEnd st, tokenStack = stk\<rparr>)"
    and "Token \<lparr>input = LTrue # ls, tokenState = st, tokenStack = stk\<rparr>
           = (Inr (TBool True), \<lparr>input = ls, tokenState = tokenValueEnd st, tokenStack = stk\<rparr>)"
    and "Token \<lparr>input = LFalse # ls, tokenState = st, tokenStack = stk\<rparr>
           = (Inr (TBool False), \<lparr>input = ls, tokenState = tokenValueEnd st, tokenStack = stk\<rparr>)"
    and "Token \<lparr>input = LString s # ls, tokenState = st, tokenStack = stk\<rparr>
           = (Inr (TString s), \<lparr>input = ls, tokenState = tokenValueEnd st, tokenStack = stk\<rparr>)"
    and "\<not> float64_overflows lit \<Longrightarrow>
         Token \<lparr>input = LNumber lit # ls, tokenState = st, tokenStack = stk\<rparr>
           = (Inr (TFloat64 lit), \<lparr>input = ls, tokenState = tokenValueEnd st, tokenStack = stk\<rparr>)"
  using assms tokenValueAllowed_not_key [OF assms]
  by (simp_all add: Token_def scalar_def)

lemma Token_open:
  assumes "tokenValueAllowed st"
  shows "Token \<lparr>input = LBrack # ls, tokenState = st, tokenStack = stk\<rparr>
           = (Inr (Delim (CHR ''['')),
              \<lparr>input = ls, tokenState = tokenArrayStart, tokenStack = stk @ [st]\<rparr>)"
    and "Token \<lparr>input = LBrace # ls, tokenState = st, tokenStack = stk\<rparr>
           = (Inr (Delim (CHR ''{'')),
              \<lparr>input = ls, tokenState = tokenObjectStart, tokenStack = stk @ [st]\<rparr>)"
  using assms by (simp_all add: Token_def)

lemma Token_close:
  shows "st = tokenArrayStart \<or> st = tokenArrayComma \<Longrightarrow>
         Token \<lparr>input = RBrack # ls, tokenState = st, tokenStack = stk @ [st0]\<rparr>
           = (Inr (Delim (CHR '']'')),
              \<lparr>input = ls, tokenState = tokenValueEnd st0, tokenStack = stk\<rparr>)"
    and "st = tokenObjectStart \<or> st = tokenObjectComma \<Longrightarrow>
         Token \<lparr>input = RBrace # ls, tokenState = st, tokenStack = stk @ [st0]\<rparr>
           = (Inr (Delim (CHR ''}'')),
              \<lparr>input = ls, tokenState = tokenValueEnd st0, tokenStack = stk\<rparr>)"
  by (auto simp: Token_def closing_def)

lemma Token_skip:
  shows "Token \<lparr>input = Comma # ls, tokenState = tokenArrayComma, tokenStack = stk\<rparr>
           = Token \<lparr>input = ls, tokenState = tokenArrayValue, tokenStack = stk\<rparr>"
    and "Token \<lparr>input = Comma # ls, tokenState = tokenObjectComma, tokenStack = stk\<rparr>
           = Token \<lparr>input = ls, tokenState = tokenObjectKey, tokenStack = stk\<rparr>"
    and "Token \<lparr>input = Colon # ls, tokenState = tokenObjectColon, tokenStack = stk\<rparr>
           = Token \<lparr>input = ls, tokenState = tokenObjectValue, tokenStack = stk\<rparr>"
  by (simp_all add: Token_def)

lemma Token_key:
  "st = tokenObjectStart \<or> st = tokenObjectKey \<Longrightarrow>
   Token \<lparr>input = LString k # ls, tokenState = st, tokenStack = stk\<rparr>
     = (Inr (TString k), \<lparr>input = ls, tokenState = tokenObjectColon, tokenStack = stk\<rparr>)"
  by (auto simp: Token_def)

lemma CheckDuplicate_skip:
  shows "CheckDuplicate \<lparr>input = Comma # ls, tokenState = tokenArrayComma, tokenStack = stk\<rparr>
           = CheckDuplicate \<lparr>input = ls, tokenState = tokenArrayValue, tokenStack = stk\<rparr>"
    and "CheckDuplicate \<lparr>input = Colon # ls, tokenState = tokenObjectColon, tokenStack = stk\<rparr>
           = CheckDuplicate \<lparr>input = ls, tokenState = tokenObjectValue, tokenStack = stk\<rparr>"
  by (simp_all add: CheckDuplicate.simps Token_skip)

lemma lexemes_of_head:
  "\<exists>l ls. lexemes_of j = l # ls \<and> l \<noteq> RBrack \<and> l \<noteq> RBrace \<and> l \<noteq> Comma \<and> l \<noteq> Colon"
proof (cases j)
  case (JArray xs)
  then show ?thesis by (cases xs) auto
next
  case (JObject kvs)
  then show ?thesis by (cases kvs) auto
qed auto

lemma More_lexemes_of:
  "More \<lparr>input = lexemes_of j @ rest, tokenState = st, tokenStack = stk\<rparr>"
  using lexemes_of_head [of j] by (auto simp: More_def)

lemma CheckDuplicate_array_end:
  "st = tokenArrayStart \<or> st = tokenArrayComma \<Longrightarrow>
   CheckDuplicate_array \<lparr>input = RBrack # rest, tokenState = st, tokenStack = stk @ [st0]\<rparr>
     = (None, \<lparr>input = rest, tokenState = tokenValueEnd st0, tokenStack = stk\<rparr>)"
  by (subst CheckDuplicate_array_unfold) (simp add: More_def Token_close)

lemma CheckDuplicate_object_end:
  "st = tokenObjectStart \<or> st = tokenObjectComma \<Longrightarrow>
   CheckDuplicate_object \<lparr>input = RBrace # rest, tokenState = st, tokenStack = stk @ [st0]\<rparr> seen
     = (None, \<lparr>input = rest, tokenState = tokenValueEnd st0, tokenStack = stk\<rparr>)"
  by (subst CheckDuplicate_object_unfold) (simp add: More_def Token_close)

lemma CheckDuplicate_object_key:
  assumes "(pre = [] \<and> st = tokenObjectStart) \<or> (pre = [Comma] \<and> st = tokenObjectComma)"
  shows "CheckDuplicate_object
           \<lparr>input = pre @ LString k # Colon # ls, tokenState = st, tokenStack = stk\<rparr> seen
         = (if k \<in> seen
            then (Some (ErrJSONDuplicate k),
                  \<lparr>input = Colon # ls, tokenState = tokenObjectColon, tokenStack = stk\<rparr>)
            else (case CheckDuplicate \<lparr>input = ls, tokenState = tokenObjectValue, tokenStack = stk\<rparr> of
                    (Some err, d2) \<Rightarrow> (Some err, d2)
                  | (None, d2) \<Rightarrow> CheckDuplicate_object d2 (insert k seen)))"
  using assms
  by (subst CheckDuplicate_object_unfold)
     (auto simp: More_def Token_key Token_skip CheckDuplicate_skip)

lemma CheckDuplicate_array_elem:
  assumes "(pre = [] \<and> st = tokenArrayStart \<and> st' = tokenArrayStart)
           \<or> (pre = [Comma] \<and> st = tokenArrayComma \<and> st' = tokenArrayValue)"
  shows "CheckDuplicate_array
           \<lparr>input = pre @ lexemes_of x @ ls, tokenState = st, tokenStack = stk\<rparr>
         = (case CheckDuplicate \<lparr>input = lexemes_of x @ ls, tokenState = st', tokenStack = stk\<rparr> of
              (Some err, d1) \<Rightarrow> (Some err, d1)
            | (None, d1) \<Rightarrow> CheckDuplicate_array d1)"
  using assms More_lexemes_of [of x ls st stk]
  by (subst CheckDuplicate_array_unfold)
     (auto simp: More_def CheckDuplicate_skip)

lemma CheckDuplicate_scan:
  "tokenValueAllowed st \<Longrightarrow>
   fst (CheckDuplicate \<lparr>input = lexemes_of j @ rest, tokenState = st, tokenStack = stk\<rparr>)
     = scan_error j \<and>
   (scan_error j = None \<longrightarrow>
      snd (CheckDuplicate \<lparr>input = lexemes_of j @ rest, tokenState = st, tokenStack = stk\<rparr>)
        = \<lparr>input = rest, tokenState = tokenValueEnd st, tokenStack = stk\<rparr>)"
  "fst (CheckDuplicate_array
          \<lparr>input = comma_elements xs @ RBrack # rest, tokenState = tokenArrayComma,
           tokenStack = stk @ [st0]\<rparr>)
     = scan_error_elements xs \<and>
   (scan_error_elements xs = None \<longrightarrow>
      snd (CheckDuplicate_array
             \<lparr>input = comma_elements xs @ RBrack # rest, tokenState = tokenArrayComma,
              tokenStack = stk @ [st0]\<rparr>)
        = \<lparr>input = rest, tokenState = tokenValueEnd st0, tokenStack = stk\<rparr>)"
  "fst (CheckDuplicate_object
          \<lparr>input = comma_members kvs @ RBrace # rest, tokenState = tokenObjectComma,
           tokenStack = stk @ [st0]\<rparr> seen)
     = scan_error_members kvs seen \<and>
   (scan_error_members kvs seen = None \<longrightarrow>
      snd (CheckDuplicate_object
             \<lparr>input = comma_members kvs @ RBrace # rest, tokenState = tokenObjectComma,
              tokenStack = stk @ [st0]\<rparr> seen)
        = \<lparr>input = rest, tokenState = tokenValueEnd st0, tokenStack = stk\<rparr>)"
proof (induction j and xs and kvs arbitrary: st stk rest and st0 stk rest and seen st0 stk rest
        rule: lexemes_of_comma_elements_comma_members.induct)
  case 1
  then show ?case by (simp add: CheckDuplicate.simps Token_scalar)
next
  case (2 b)
  then show ?case by (simp add: CheckDuplicate.simps Token_scalar)
next
  case (3 lit)
  then show ?case
    by (cases "float64_overflows lit")
       (simp_all add: CheckDuplicate.simps Token_def scalar_def)
next
  case (4 s)
  then show ?case by (simp add: CheckDuplicate.simps Token_scalar)
next
  case 5
  then show ?case
    by (simp add: CheckDuplicate.simps Token_open CheckDuplicate_array_end)
next
  case (6 x xs)
  have vx: "tokenValueAllowed tokenArrayStart" by (simp add: tokenValueAllowed_def)
  have e: "tokenValueEnd tokenArrayStart = tokenArrayComma" by (simp add: tokenValueEnd_def)
  note ihx = "6.IH"(1) [OF vx, of "comma_elements xs @ RBrack # rest" "stk @ [st]"]
  note ihxs = "6.IH"(2) [of rest stk st]
  have u: "CheckDuplicate \<lparr>input = lexemes_of (JArray (x # xs)) @ rest, tokenState = st,
             tokenStack = stk\<rparr>
           = (case CheckDuplicate \<lparr>input = lexemes_of x @ comma_elements xs @ RBrack # rest,
                 tokenState = tokenArrayStart, tokenStack = stk @ [st]\<rparr> of
                (Some err, d1) \<Rightarrow> (Some err, d1)
              | (None, d1) \<Rightarrow> CheckDuplicate_array d1)"
    using "6.prems"(1)
      CheckDuplicate_array_elem [of "[]" tokenArrayStart tokenArrayStart x
        "comma_elements xs @ RBrack # rest" "stk @ [st]"]
    by (simp add: CheckDuplicate.simps Token_open)
  show ?case
  proof (cases "scan_error x")
    case None
    with ihx e have "CheckDuplicate \<lparr>input = lexemes_of x @ comma_elements xs @ RBrack # rest,
                 tokenState = tokenArrayStart, tokenStack = stk @ [st]\<rparr>
        = (None, \<lparr>input = comma_elements xs @ RBrack # rest, tokenState = tokenArrayComma,
                  tokenStack = stk @ [st]\<rparr>)"
      by (simp add: prod_eq_iff)
    with u ihxs None show ?thesis by simp
  next
    case (Some k)
    with ihx obtain d1 where "CheckDuplicate \<lparr>input = lexemes_of x @ comma_elements xs @ RBrack # rest,
                 tokenState = tokenArrayStart, tokenStack = stk @ [st]\<rparr>
        = (Some k, d1)"
      by (simp add: prod_eq_iff)
    with u Some show ?thesis by simp
  qed
next
  case 7
  then show ?case
    by (simp add: CheckDuplicate.simps Token_open CheckDuplicate_object_end)
next
  case (8 k x kvs)
  have vx: "tokenValueAllowed tokenObjectValue" by (simp add: tokenValueAllowed_def)
  have e: "tokenValueEnd tokenObjectValue = tokenObjectComma" by (simp add: tokenValueEnd_def)
  note ihx = "8.IH"(1) [OF vx, of "comma_members kvs @ RBrace # rest" "stk @ [st]"]
  note ihxs = "8.IH"(2) [of rest stk st "{k}"]
  have u: "CheckDuplicate \<lparr>input = lexemes_of (JObject ((k, x) # kvs)) @ rest, tokenState = st,
             tokenStack = stk\<rparr>
           = (case CheckDuplicate \<lparr>input = lexemes_of x @ comma_members kvs @ RBrace # rest,
                 tokenState = tokenObjectValue, tokenStack = stk @ [st]\<rparr> of
                (Some err, d2) \<Rightarrow> (Some err, d2)
              | (None, d2) \<Rightarrow> CheckDuplicate_object d2 {k})"
    using "8.prems"(1)
      CheckDuplicate_object_key [of "[]" tokenObjectStart k
        "lexemes_of x @ comma_members kvs @ RBrace # rest" "stk @ [st]" "{}"]
    by (simp add: CheckDuplicate.simps Token_open)
  show ?case
  proof (cases "scan_error x")
    case None
    with ihx e have "CheckDuplicate \<lparr>input = lexemes_of x @ comma_members kvs @ RBrace # rest,
                 tokenState = tokenObjectValue, tokenStack = stk @ [st]\<rparr>
        = (None, \<lparr>input = comma_members kvs @ RBrace # rest, tokenState = tokenObjectComma,
                  tokenStack = stk @ [st]\<rparr>)"
      by (simp add: prod_eq_iff)
    with u ihxs None show ?thesis by simp
  next
    case (Some k')
    with ihx obtain d1 where "CheckDuplicate \<lparr>input = lexemes_of x @ comma_members kvs @ RBrace # rest,
                 tokenState = tokenObjectValue, tokenStack = stk @ [st]\<rparr>
        = (Some k', d1)"
      by (simp add: prod_eq_iff)
    with u Some show ?thesis by simp
  qed
next
  case 9
  then show ?case by (simp add: CheckDuplicate_array_end)
next
  case (10 x xs)
  have vx: "tokenValueAllowed tokenArrayValue" by (simp add: tokenValueAllowed_def)
  have e: "tokenValueEnd tokenArrayValue = tokenArrayComma" by (simp add: tokenValueEnd_def)
  note ihx = "10.IH"(1) [OF vx, of "comma_elements xs @ RBrack # rest" "stk @ [st0]"]
  note ihxs = "10.IH"(2) [of rest stk st0]
  have u: "CheckDuplicate_array \<lparr>input = comma_elements (x # xs) @ RBrack # rest,
             tokenState = tokenArrayComma, tokenStack = stk @ [st0]\<rparr>
           = (case CheckDuplicate \<lparr>input = lexemes_of x @ comma_elements xs @ RBrack # rest,
                 tokenState = tokenArrayValue, tokenStack = stk @ [st0]\<rparr> of
                (Some err, d1) \<Rightarrow> (Some err, d1)
              | (None, d1) \<Rightarrow> CheckDuplicate_array d1)"
    using CheckDuplicate_array_elem [of "[Comma]" tokenArrayComma tokenArrayValue x
        "comma_elements xs @ RBrack # rest" "stk @ [st0]"]
    by simp
  show ?case
  proof (cases "scan_error x")
    case None
    with ihx e have "CheckDuplicate \<lparr>input = lexemes_of x @ comma_elements xs @ RBrack # rest,
                 tokenState = tokenArrayValue, tokenStack = stk @ [st0]\<rparr>
        = (None, \<lparr>input = comma_elements xs @ RBrack # rest, tokenState = tokenArrayComma,
                  tokenStack = stk @ [st0]\<rparr>)"
      by (simp add: prod_eq_iff)
    with u ihxs None show ?thesis by simp
  next
    case (Some k)
    with ihx obtain d1 where "CheckDuplicate \<lparr>input = lexemes_of x @ comma_elements xs @ RBrack # rest,
                 tokenState = tokenArrayValue, tokenStack = stk @ [st0]\<rparr>
        = (Some k, d1)"
      by (simp add: prod_eq_iff)
    with u Some show ?thesis by simp
  qed
next
  case 11
  then show ?case by (simp add: CheckDuplicate_object_end)
next
  case (12 k x kvs)
  have vx: "tokenValueAllowed tokenObjectValue" by (simp add: tokenValueAllowed_def)
  have e: "tokenValueEnd tokenObjectValue = tokenObjectComma" by (simp add: tokenValueEnd_def)
  note ihx = "12.IH"(1) [OF vx, of "comma_members kvs @ RBrace # rest" "stk @ [st0]"]
  note ihxs = "12.IH"(2) [of rest stk st0 "insert k seen"]
  have u: "CheckDuplicate_object \<lparr>input = comma_members ((k, x) # kvs) @ RBrace # rest,
             tokenState = tokenObjectComma, tokenStack = stk @ [st0]\<rparr> seen
           = (if k \<in> seen
              then (Some (ErrJSONDuplicate k),
                    \<lparr>input = Colon # lexemes_of x @ comma_members kvs @ RBrace # rest,
                     tokenState = tokenObjectColon, tokenStack = stk @ [st0]\<rparr>)
              else (case CheckDuplicate \<lparr>input = lexemes_of x @ comma_members kvs @ RBrace # rest,
                       tokenState = tokenObjectValue, tokenStack = stk @ [st0]\<rparr> of
                      (Some err, d2) \<Rightarrow> (Some err, d2)
                    | (None, d2) \<Rightarrow> CheckDuplicate_object d2 (insert k seen)))"
    using CheckDuplicate_object_key [of "[Comma]" tokenObjectComma k
        "lexemes_of x @ comma_members kvs @ RBrace # rest" "stk @ [st0]" seen]
    by simp
  show ?case
  proof (cases "k \<in> seen")
    case True
    with u show ?thesis by simp
  next
    case False
    show ?thesis
    proof (cases "scan_error x")
      case None
      with ihx e have "CheckDuplicate \<lparr>input = lexemes_of x @ comma_members kvs @ RBrace # rest,
                   tokenState = tokenObjectValue, tokenStack = stk @ [st0]\<rparr>
          = (None, \<lparr>input = comma_members kvs @ RBrace # rest, tokenState = tokenObjectComma,
                    tokenStack = stk @ [st0]\<rparr>)"
        by (simp add: prod_eq_iff)
      with u ihxs None False show ?thesis by simp
    next
      case (Some k')
      with ihx obtain d1 where "CheckDuplicate \<lparr>input = lexemes_of x @ comma_members kvs @ RBrace # rest,
                   tokenState = tokenObjectValue, tokenStack = stk @ [st0]\<rparr>
          = (Some k', d1)"
        by (simp add: prod_eq_iff)
      with u Some False show ?thesis by simp
    qed
  qed
qed



lemma scan_error_first_dup:
  "\<not> range_error j \<Longrightarrow> scan_error j = map_option ErrJSONDuplicate (first_dup j)"
  "\<forall>x \<in> set xs. \<not> range_error x \<Longrightarrow>
     scan_error_elements xs = map_option ErrJSONDuplicate (first_dup_elements xs)"
  "\<forall>x \<in> set (map snd kvs). \<not> range_error x \<Longrightarrow>
     scan_error_members kvs seen = map_option ErrJSONDuplicate (first_dup_members kvs seen)"
  by (induction j and xs and kvs seen
        rule: scan_error_scan_error_elements_scan_error_members.induct)
     (auto split: option.splits)

lemma scan_error_None:
  "scan_error j = None \<Longrightarrow> \<not> range_error j \<and> \<not> has_duplicate j"
  "scan_error_elements xs = None \<Longrightarrow> \<forall>x \<in> set xs. \<not> range_error x \<and> \<not> has_duplicate x"
  "scan_error_members kvs seen = None \<Longrightarrow>
     (\<forall>x \<in> set (map snd kvs). \<not> range_error x \<and> \<not> has_duplicate x) \<and>
     distinct (map fst kvs) \<and> set (map fst kvs) \<inter> seen = {}"
  by (induction j and xs and kvs seen
        rule: scan_error_scan_error_elements_scan_error_members.induct)
     (auto split: option.splits if_splits)

lemma CheckDuplicate_lexemes:
  "tokenValueAllowed st \<Longrightarrow> \<not> range_error j \<Longrightarrow>
   fst (CheckDuplicate \<lparr>input = lexemes_of j @ rest, tokenState = st, tokenStack = stk\<rparr>)
     = map_option ErrJSONDuplicate (first_dup j) \<and>
   (first_dup j = None \<longrightarrow>
      snd (CheckDuplicate \<lparr>input = lexemes_of j @ rest, tokenState = st, tokenStack = stk\<rparr>)
        = \<lparr>input = rest, tokenState = tokenValueEnd st, tokenStack = stk\<rparr>)"
  using CheckDuplicate_scan(1) [of st j rest stk] scan_error_first_dup(1) [of j]
  by simp

lemma first_dup_sound:
  "first_dup j = Some k \<Longrightarrow> duplicated_in k j"
  "first_dup_elements xs = Some k \<Longrightarrow> \<exists>x \<in> set xs. duplicated_in k x"
  "first_dup_members kvs seen = Some k \<Longrightarrow>
     (k \<in> seen \<and> k \<in> set (map fst kvs)) \<or> 1 < count_list (map fst kvs) k \<or>
     (\<exists>x \<in> set (map snd kvs). duplicated_in k x)"
proof (induction j and xs and kvs seen arbitrary: k and k and k
        rule: first_dup_first_dup_elements_first_dup_members.induct)
  case (2 kvs)
  then show ?case by fastforce
next
  case (8 x xs)
  then show ?case by (auto split: option.splits)
next
  case (10 k' x kvs seen)
  show ?case
  proof (cases "k' \<in> seen")
    case True
    with "10.prems" show ?thesis by simp
  next
    case False
    show ?thesis
    proof (cases "first_dup x")
      case (Some a)
      with False "10.prems" "10.IH"(1) [OF False] show ?thesis by auto
    next
      case None
      with False "10.prems" have "first_dup_members kvs (insert k' seen) = Some k" by simp
      from "10.IH"(2) [OF False None this] show ?thesis
        by (auto simp: count_list_0_iff dest!: not_less [THEN iffD1]
              intro: Suc_lessI) (metis count_list_0_iff image_eqI list.set_map fst_conv)+
    qed
  qed
qed auto


lemma first_dup_complete:
  "has_duplicate j \<Longrightarrow> first_dup j \<noteq> None"
  "\<exists>x \<in> set xs. has_duplicate x \<Longrightarrow> first_dup_elements xs \<noteq> None"
  "\<not> distinct (map fst kvs) \<or> set (map fst kvs) \<inter> seen \<noteq> {} \<or>
     (\<exists>x \<in> set (map snd kvs). has_duplicate x) \<Longrightarrow>
   first_dup_members kvs seen \<noteq> None"
proof (induction j and xs and kvs seen
        rule: first_dup_first_dup_elements_first_dup_members.induct)
  case (8 x xs)
  then show ?case by (auto split: option.splits)
next
  case (10 k' x kvs seen)
  show ?case
  proof (cases "k' \<in> seen")
    case True
    then show ?thesis by simp
  next
    case False
    show ?thesis
    proof (cases "first_dup x")
      case (Some a)
      with False show ?thesis by simp
    next
      case None
      with "10.IH"(1) [OF False] have nx: "\<not> has_duplicate x" by auto
      from "10.prems" nx False
      have "\<not> distinct (map fst kvs) \<or> set (map fst kvs) \<inter> insert k' seen \<noteq> {} \<or>
            (\<exists>x \<in> set (map snd kvs). has_duplicate x)"
        by auto
      from "10.IH"(2) [OF False None this] False None show ?thesis by simp
    qed
  qed
qed auto

lemma UnmarshalJSON_scan_fails:
  "fst (CheckDuplicate (NewDecoder b)) = Some err \<Longrightarrow> UnmarshalJSON m b = (Some err, m)"
  by (simp add: UnmarshalJSON_def)

lemma CheckDuplicate_text:
  assumes "lex b = lexemes_of j"
  shows "fst (CheckDuplicate (NewDecoder b)) = scan_error j"
  using CheckDuplicate_scan(1) [of tokenTopValue j "[]" "[]"] assms
  by (simp add: NewDecoder_def tokenValueAllowed_def)

text \<open>
  C1, amended. Let the input be a JSON text: its lexemes are those of a JSON value \<open>j\<close>.
  If some object of \<open>j\<close>, at any depth, inside objects or arrays, has two members with
  the same key, \<open>UnmarshalJSON\<close> fails and leaves the container as it was; its error is
  the first failure met when the tokens are read from left to right (\<open>scan_error\<close>).
  When every number of \<open>j\<close> fits a \<open>float64\<close>, that error is the duplicate error, naming
  a key that occurs twice in one object of \<open>j\<close>. The three inputs of the specification
  fail with the keys \<open>a\<close>, \<open>x\<close> and \<open>a\<close>.
\<close>

theorem UnmarshalJSON_rejects_duplicates:
  \<open>(lex b = lexemes_of j \<and> has_duplicate j \<longrightarrow>
      (\<exists>err. scan_error j = Some err \<and> UnmarshalJSON m b = (Some err, m)) \<and>
      (\<not> range_error j \<longrightarrow>
         (\<exists>k. duplicated_in k j \<and> UnmarshalJSON m b = (Some (ErrJSONDuplicate k), m)))) \<and>
   UnmarshalJSON m ''{"a":1,"b":2,"a":3}'' = (Some (ErrJSONDuplicate ''a''), m) \<and>
   UnmarshalJSON m ''{"a":{"x":1,"x":2}}'' = (Some (ErrJSONDuplicate ''x''), m) \<and>
   UnmarshalJSON m ''[{"a":1,"a":2}]'' = (Some (ErrJSONDuplicate ''a''), m)\<close>
proof (intro conjI impI)
  assume a: "lex b = lexemes_of j \<and> has_duplicate j"
  with scan_error_None(1) [of j] obtain err where e: "scan_error j = Some err"
    by (cases "scan_error j") auto
  from CheckDuplicate_text [of b j] a e
  have "fst (CheckDuplicate (NewDecoder b)) = Some err" by simp
  then have "UnmarshalJSON m b = (Some err, m)"
    by (rule UnmarshalJSON_scan_fails)
  with e show "\<exists>err. scan_error j = Some err \<and> UnmarshalJSON m b = (Some err, m)"
    by blast
next
  assume a: "lex b = lexemes_of j \<and> has_duplicate j" and r: "\<not> range_error j"
  then obtain k where k: "first_dup j = Some k"
    using first_dup_complete(1) [of j] by auto
  have v: "tokenValueAllowed tokenTopValue"
    by (simp add: tokenValueAllowed_def)
  from CheckDuplicate_lexemes(1) [OF v r, of "[]" "[]"] a k
  have "fst (CheckDuplicate (NewDecoder b)) = Some (ErrJSONDuplicate k)"
    by (simp add: NewDecoder_def)
  then have "UnmarshalJSON m b = (Some (ErrJSONDuplicate k), m)"
    by (rule UnmarshalJSON_scan_fails)
  with first_dup_sound(1) [OF k]
  show "\<exists>k. duplicated_in k j \<and> UnmarshalJSON m b = (Some (ErrJSONDuplicate k), m)"
    by blast
next
  have \<open>fst (CheckDuplicate (NewDecoder ''{"a":1,"b":2,"a":3}'')) = Some (ErrJSONDuplicate ''a'')\<close>
    by code_simp
  then show \<open>UnmarshalJSON m ''{"a":1,"b":2,"a":3}'' = (Some (ErrJSONDuplicate ''a''), m)\<close>
    by (rule UnmarshalJSON_scan_fails)
next
  have \<open>fst (CheckDuplicate (NewDecoder ''{"a":{"x":1,"x":2}}'')) = Some (ErrJSONDuplicate ''x'')\<close>
    by code_simp
  then show \<open>UnmarshalJSON m ''{"a":{"x":1,"x":2}}'' = (Some (ErrJSONDuplicate ''x''), m)\<close>
    by (rule UnmarshalJSON_scan_fails)
next
  have \<open>fst (CheckDuplicate (NewDecoder ''[{"a":1,"a":2}]'')) = Some (ErrJSONDuplicate ''a'')\<close>
    by code_simp
  then show \<open>UnmarshalJSON m ''[{"a":1,"a":2}]'' = (Some (ErrJSONDuplicate ''a''), m)\<close>
    by (rule UnmarshalJSON_scan_fails)
qed

theorem UnmarshalJSON_rejects_duplicates_witness:
  \<open>lex ''{ "k" : [true, {"a":1, "b":{}, "a":"x"}] }''
     = lexemes_of (JObject [(''k'', JArray [JBool True,
         JObject [(''a'', JNumber ''1''), (''b'', JObject []), (''a'', JString ''x'')]])]) \<and>
   has_duplicate (JObject [(''k'', JArray [JBool True,
         JObject [(''a'', JNumber ''1''), (''b'', JObject []), (''a'', JString ''x'')]])]) \<and>
   \<not> range_error (JObject [(''k'', JArray [JBool True,
         JObject [(''a'', JNumber ''1''), (''b'', JObject []), (''a'', JString ''x'')]])]) \<and>
   (\<exists>err. scan_error (JObject [(''k'', JArray [JBool True,
         JObject [(''a'', JNumber ''1''), (''b'', JObject []), (''a'', JString ''x'')]])])
           = Some err \<and>
        UnmarshalJSON New ''{ "k" : [true, {"a":1, "b":{}, "a":"x"}] }'' = (Some err, New)) \<and>
   (\<exists>k. duplicated_in k (JObject [(''k'', JArray [JBool True,
         JObject [(''a'', JNumber ''1''), (''b'', JObject []), (''a'', JString ''x'')]])]) \<and>
        UnmarshalJSON New ''{ "k" : [true, {"a":1, "b":{}, "a":"x"}] }''
          = (Some (ErrJSONDuplicate k), New))\<close>
proof -
  let ?j = "JObject [(''k'', JArray [JBool True,
         JObject [(''a'', JNumber ''1''), (''b'', JObject []), (''a'', JString ''x'')]])]"
  have l: \<open>lex ''{ "k" : [true, {"a":1, "b":{}, "a":"x"}] }'' = lexemes_of ?j\<close>
    by code_simp
  have h: "has_duplicate ?j"
    by simp
  have r: "\<not> range_error ?j"
    by code_simp
  from UnmarshalJSON_rejects_duplicates
    [of \<open>''{ "k" : [true, {"a":1, "b":{}, "a":"x"}] }''\<close> ?j New] l h r
  show ?thesis by blast
qed

text \<open>
  C1 as stated fails on the code: \<open>Decoder.Token\<close> converts every number that it reads,
  so a number outside \<open>float64\<close> that stands before the repeated key ends the scan with
  its conversion error, and the duplicate is never reached.
\<close>

theorem UnmarshalJSON_range_error_before_duplicate:
  \<open>UnmarshalJSON New ''{"a":1e400,"b":1,"b":2}'' = (Some UnmarshalTypeError, New)\<close>
  by code_simp

subsection \<open>The parser of the flat decode\<close>

lemma lexemes_of_JObject:
  "kvs \<noteq> [] \<Longrightarrow> lexemes_of (JObject kvs) = LBrace # tl (comma_members kvs) @ [RBrace]"
  by (cases kvs) auto

lemma lexemes_of_JArray:
  "xs \<noteq> [] \<Longrightarrow> lexemes_of (JArray xs) = LBrack # tl (comma_elements xs) @ [RBrack]"
  by (cases xs) auto

lemma parse_sound:
  "parse_value ls = Some (j, rest) \<Longrightarrow> ls = lexemes_of j @ rest"
  "parse_members ls = Some (kvs, rest) \<Longrightarrow>
     kvs \<noteq> [] \<and> Comma # ls = comma_members kvs @ RBrace # rest"
  "parse_elements ls = Some (xs, rest) \<Longrightarrow>
     xs \<noteq> [] \<and> Comma # ls = comma_elements xs @ RBrack # rest"
proof (induction ls and ls and ls arbitrary: j rest and kvs rest and xs rest
        rule: parse_value_parse_members_parse_elements.induct)
  case 1
  then show ?case by simp
next
  case (2 l ls)
  show ?case
  proof (cases l)
    case LBrace
    show ?thesis
    proof (cases "\<exists>ls'. ls = RBrace # ls'")
      case True
      with LBrace "2.prems" show ?thesis by auto
    next
      case False
      with LBrace "2.prems" obtain kvs where p: "parse_members ls = Some (kvs, rest)"
        and j: "j = JObject kvs"
        by (auto split: list.splits lexeme.splits option.splits)
      have "kvs \<noteq> [] \<and> Comma # ls = comma_members kvs @ RBrace # rest"
      proof (cases ls)
        case Nil
        from "2.IH"(1) [OF LBrace Nil p] show ?thesis .
      next
        case (Cons a ls')
        with False have "a \<noteq> RBrace" by simp
        then show ?thesis
          using "2.IH"(2-13) [OF LBrace Cons _ p] by (cases a) simp_all
      qed
      then show ?thesis
        using LBrace j by (cases kvs) auto
    qed
  next
    case LBrack
    show ?thesis
    proof (cases "\<exists>ls'. ls = RBrack # ls'")
      case True
      with LBrack "2.prems" show ?thesis by auto
    next
      case False
      with LBrack "2.prems" obtain xs where p: "parse_elements ls = Some (xs, rest)"
        and j: "j = JArray xs"
        by (auto split: list.splits lexeme.splits option.splits)
      have "xs \<noteq> [] \<and> Comma # ls = comma_elements xs @ RBrack # rest"
      proof (cases ls)
        case Nil
        from "2.IH"(14) [OF LBrack Nil p] show ?thesis .
      next
        case (Cons a ls')
        with False have "a \<noteq> RBrack" by simp
        then show ?thesis
          using "2.IH"(15-26) [OF LBrack Cons _ p] by (cases a) simp_all
      qed
      then show ?thesis
        using LBrack j by (cases xs) auto
    qed
  qed (use "2.prems" in auto)
next
  case (3 ls)
  from "3.prems" obtain k ls1 x ls2 where ls: "ls = LString k # Colon # ls1"
    and pv: "parse_value ls1 = Some (x, ls2)"
    by (subst (asm) parse_members.simps)
       (auto split: list.splits lexeme.splits option.splits)
  from "3.IH"(1) [OF ls refl refl refl pv] have l1: "ls1 = lexemes_of x @ ls2" .
  show ?case
  proof (cases ls2)
    case Nil
    with "3.prems" ls pv show ?thesis
      by (subst (asm) parse_members.simps) simp
  next
    case (Cons l ls3)
    show ?thesis
    proof (cases l)
      case RBrace
      with "3.prems" ls pv Cons l1 show ?thesis
        by (subst (asm) parse_members.simps) auto
    next
      case Comma
      with "3.prems" ls pv Cons obtain kvs' where g: "length ls3 < length ls"
        and pm: "parse_members ls3 = Some (kvs', rest)" and kvs: "kvs = (k, x) # kvs'"
        by (subst (asm) parse_members.simps) (auto split: if_splits option.splits)
      from "3.IH"(2) [OF ls refl refl refl pv refl Cons Comma g pm]
      have "kvs' \<noteq> [] \<and> Comma # ls3 = comma_members kvs' @ RBrace # rest" .
      with ls l1 Cons Comma kvs show ?thesis by simp
    qed (use "3.prems" ls pv Cons in \<open>(subst (asm) parse_members.simps, simp)+\<close>)
  qed
next
  case (4 ls)
  from "4.prems" obtain x ls2 where pv: "parse_value ls = Some (x, ls2)"
    by (subst (asm) parse_elements.simps) (auto split: option.splits)
  from "4.IH"(1) [OF pv] have l1: "ls = lexemes_of x @ ls2" .
  show ?case
  proof (cases ls2)
    case Nil
    with "4.prems" pv show ?thesis
      by (subst (asm) parse_elements.simps) simp
  next
    case (Cons l ls3)
    show ?thesis
    proof (cases l)
      case RBrack
      with "4.prems" pv Cons l1 show ?thesis
        by (subst (asm) parse_elements.simps) auto
    next
      case Comma
      with "4.prems" pv Cons obtain xs' where g: "length ls3 < length ls"
        and pm: "parse_elements ls3 = Some (xs', rest)" and xs: "xs = x # xs'"
        by (subst (asm) parse_elements.simps) (auto split: if_splits option.splits)
      from "4.IH"(2) [OF pv refl Cons Comma g pm]
      have "xs' \<noteq> [] \<and> Comma # ls3 = comma_elements xs' @ RBrack # rest" .
      with l1 Cons Comma xs show ?thesis by simp
    qed (use "4.prems" pv Cons in \<open>(subst (asm) parse_elements.simps, simp)+\<close>)
  qed
qed

subsection \<open>The order-recovering pass on JSON texts\<close>

lemma update_same: "map_of al k = Some v \<Longrightarrow> AList.update k v al = al"
  by (induction al) auto

lemma update_middle:
  "k \<notin> fst ` set pre \<Longrightarrow> AList.update k v (pre @ (k, w) # rest) = pre @ (k, v) # rest"
  by (induction pre) auto

lemma toNative_members_other:
  "k \<notin> set (map fst kvs) \<Longrightarrow> map_of (toNative_members kvs m) k = map_of m k"
  by (induction kvs arbitrary: m) (auto simp: update_conv')

lemma toNative_members_lookup:
  "distinct (map fst kvs) \<Longrightarrow> (k, x) \<in> set kvs \<Longrightarrow>
   map_of (toNative_members kvs m) k = Some (toNative x)"
proof (induction kvs arbitrary: m)
  case Nil
  then show ?case by simp
next
  case (Cons kv kvs)
  obtain k' x' where kv: "kv = (k', x')" by (cases kv)
  show ?case
  proof (cases "(k, x) = (k', x')")
    case True
    with Cons.prems kv have "k \<notin> set (map fst kvs)" by auto
    with True kv show ?thesis
      by (simp add: toNative_members_other update_conv')
  next
    case False
    with Cons.prems kv have "(k, x) \<in> set kvs" "distinct (map fst kvs)" by auto
    with Cons.IH kv show ?thesis by simp
  qed
qed

lemma toNative_members_fresh:
  "distinct (map fst kvs) \<Longrightarrow> set (map fst kvs) \<inter> fst ` set m = {} \<Longrightarrow>
   toNative_members kvs m = m @ map (\<lambda>(k, x). (k, toNative x)) kvs"
proof (induction kvs arbitrary: m)
  case Nil
  then show ?case by simp
next
  case (Cons kv kvs)
  obtain k x where kv: "kv = (k, x)" by (cases kv)
  from Cons.prems kv have k: "k \<notin> fst ` set m" by auto
  then have u: "AList.update k (toNative x) m = m @ [(k, toNative x)]"
    by (induction m) auto
  have "set (map fst kvs) \<inter> fst ` set (m @ [(k, toNative x)]) = {}"
    using Cons.prems kv by auto
  with Cons.IH [of "m @ [(k, toNative x)]"] Cons.prems kv u show ?case by simp
qed

lemma promote_into_fresh:
  "distinct (map fst kvs) \<Longrightarrow> set (map fst kvs) \<inter> fst ` set pre = {} \<Longrightarrow>
   promote_into kvs (pre @ map (\<lambda>(k, x). (k, toNative x)) kvs) = pre @ promote_members kvs"
proof (induction kvs arbitrary: pre)
  case Nil
  then show ?case by simp
next
  case (Cons kv kvs)
  obtain k x where kv: "kv = (k, x)" by (cases kv)
  from Cons.prems kv have k: "k \<notin> fst ` set pre" by auto
  have d: "set (map fst kvs) \<inter> fst ` set (pre @ [(k, promote x)]) = {}"
    using Cons.prems kv by auto
  from Cons.IH [OF _ d] Cons.prems kv
  have "promote_into kvs ((pre @ [(k, promote x)]) @ map (\<lambda>(k, x). (k, toNative x)) kvs)
        = (pre @ [(k, promote x)]) @ promote_members kvs"
    by simp
  with k kv show ?case by (simp add: update_middle)
qed

lemma promote_into_toNative:
  "distinct (map fst kvs) \<Longrightarrow> promote_into kvs (toNative_members kvs []) = promote_members kvs"
  using promote_into_fresh [of kvs "[]"] toNative_members_fresh [of kvs "[]"] by simp

lemma promote_scalar:
  "\<not> range_error x \<Longrightarrow> (\<forall>kvs. x \<noteq> JObject kvs) \<Longrightarrow> (\<forall>xs. x \<noteq> JArray xs) \<Longrightarrow>
   promote x = toNative x"
  by (cases x) auto

lemma decode_loop_end:
  "st = tokenObjectStart \<or> st = tokenObjectComma \<Longrightarrow>
   decode_loop \<lparr>input = RBrace # rest, tokenState = st, tokenStack = stk @ [st0]\<rparr> m hasKey
     = (None, \<lparr>input = rest, tokenState = tokenValueEnd st0, tokenStack = stk\<rparr>, m)"
  by (subst decode_loop.simps) (simp add: Token_close)

lemma decodeSlice_loop_end:
  "st = tokenArrayStart \<or> st = tokenArrayComma \<Longrightarrow>
   decodeSlice_loop \<lparr>input = RBrack # rest, tokenState = st, tokenStack = stk @ [st0]\<rparr> s idx
     = (None, \<lparr>input = rest, tokenState = tokenValueEnd st0, tokenStack = stk\<rparr>, s)"
  by (subst decodeSlice_loop.simps) (simp add: Token_close)

lemma Token_member_key:
  assumes "(pre = [] \<and> st = tokenObjectStart) \<or> (pre = [Comma] \<and> st = tokenObjectComma)"
  shows "Token \<lparr>input = pre @ LString k # ls, tokenState = st, tokenStack = stk\<rparr>
         = (Inr (TString k), \<lparr>input = ls, tokenState = tokenObjectColon, tokenStack = stk\<rparr>)"
  using assms by (auto simp: Token_skip Token_key)

lemma decode_member:
  assumes pre: "(pre = [] \<and> st = tokenObjectStart) \<or> (pre = [Comma] \<and> st = tokenObjectComma)"
    and k: "k \<notin> hasKey"
    and lookup: "map_of (values m) k = Some (toNative x)"
    and valid: "\<not> has_duplicate x" "\<not> range_error x"
    and obj: "\<And>kvs. x = JObject kvs \<Longrightarrow> object_decoded kvs"
    and arr: "\<And>xs. x = JArray xs \<Longrightarrow> array_decoded xs"
  shows "decode_loop
           \<lparr>input = pre @ LString k # Colon # lexemes_of x @ tail, tokenState = st,
            tokenStack = stk\<rparr> m hasKey
         = decode_loop \<lparr>input = tail, tokenState = tokenObjectComma, tokenStack = stk\<rparr>
             (m\<lparr>keys := keys m @ [k], values := AList.update k (promote x) (values m)\<rparr>)
             (insert k hasKey)"
proof -
  let ?dec = "\<lparr>input = pre @ LString k # Colon # lexemes_of x @ tail, tokenState = st,
               tokenStack = stk\<rparr>"
  have T1: "Token ?dec = (Inr (TString k),
              \<lparr>input = Colon # lexemes_of x @ tail, tokenState = tokenObjectColon,
               tokenStack = stk\<rparr>)"
    using Token_member_key [OF pre] by simp
  have K: "decode_key (keys m) hasKey k = Inr (keys m @ [k])"
    using k by (simp add: decode_key_def)
  have G: "Get m k = toNative x"
    using lookup by (simp add: Get_def)
  have V: "tokenValueAllowed tokenObjectValue"
    by (simp add: tokenValueAllowed_def)
  have E: "tokenValueEnd tokenObjectValue = tokenObjectComma"
    by (simp add: tokenValueEnd_def)
  show ?thesis
  proof (cases x)
    case JNull
    with T1 K lookup show ?thesis
      by (subst decode_loop.simps)
         (simp add: Token_skip Token_scalar [OF V] E update_same)
  next
    case (JBool b)
    with T1 K lookup show ?thesis
      by (subst decode_loop.simps)
         (simp add: Token_skip Token_scalar [OF V] E update_same)
  next
    case (JNumber lit)
    with T1 K lookup valid show ?thesis
      by (subst decode_loop.simps)
         (simp add: Token_skip Token_scalar [OF V] E update_same)
  next
    case (JString s)
    with T1 K lookup show ?thesis
      by (subst decode_loop.simps)
         (simp add: Token_skip Token_scalar [OF V] E update_same)
  next
    case (JObject kvs)
    have lx: "lexemes_of (JObject kvs) = LBrace # tl (comma_members kvs) @ [RBrace]"
      by (cases kvs) auto
    from valid JObject have d: "distinct (map fst kvs)" by auto
    have c: "\<forall>(k, y) \<in> set kvs.
               map_of (values \<lparr>keys = [], values = toNative_members kvs []\<rparr>) k = Some (toNative y)"
      using d by (auto simp: toNative_members_lookup)
    from obj [OF JObject, unfolded object_decoded_def, rule_format,
        of "{}" "\<lparr>keys = [], values = toNative_members kvs []\<rparr>" tail stk tokenObjectValue]
      d c
    have N: "decode_loop
               \<lparr>input = tl (comma_members kvs) @ RBrace # tail, tokenState = tokenObjectStart,
                tokenStack = stk @ [tokenObjectValue]\<rparr>
               \<lparr>keys = [], values = toNative_members kvs []\<rparr> {}
             = (None, \<lparr>input = tail, tokenState = tokenObjectComma, tokenStack = stk\<rparr>,
                \<lparr>keys = map fst kvs, values = promote_members kvs\<rparr>)"
      by (simp add: E promote_into_toNative)
    show ?thesis
      using T1 K G pre unfolding JObject lx
      by (subst decode_loop.simps)
         (auto simp: Token_skip Token_open [OF V] N)
  next
    case (JArray xs)
    have lx: "lexemes_of (JArray xs) = LBrack # tl (comma_elements xs) @ [RBrack]"
      by (cases xs) auto
    from arr [OF JArray, unfolded array_decoded_def, rule_format,
        of 0 "map toNative xs" tail stk tokenObjectValue]
    have N: "decodeSlice_loop
               \<lparr>input = tl (comma_elements xs) @ RBrack # tail, tokenState = tokenArrayStart,
                tokenStack = stk @ [tokenObjectValue]\<rparr> (map toNative xs) 0
             = (None, \<lparr>input = tail, tokenState = tokenObjectComma, tokenStack = stk\<rparr>,
                map promote xs)"
      by (simp add: E)
    show ?thesis
      using T1 K G pre unfolding JArray lx
      by (subst decode_loop.simps)
         (auto simp: Token_skip Token_open [OF V] N)
  qed
qed


lemma decode_element:
  assumes pre: "(pre = [] \<and> st = tokenArrayStart \<and> st' = tokenArrayStart)
                \<or> (pre = [Comma] \<and> st = tokenArrayComma \<and> st' = tokenArrayValue)"
    and idx: "idx < length s"
    and lookup: "s ! idx = toNative x"
    and valid: "\<not> has_duplicate x" "\<not> range_error x"
    and obj: "\<And>kvs. x = JObject kvs \<Longrightarrow> object_decoded kvs"
    and arr: "\<And>xs. x = JArray xs \<Longrightarrow> array_decoded xs"
  shows "decodeSlice_loop
           \<lparr>input = pre @ lexemes_of x @ tail, tokenState = st, tokenStack = stk\<rparr> s idx
         = decodeSlice_loop \<lparr>input = tail, tokenState = tokenArrayComma, tokenStack = stk\<rparr>
             (s[idx := promote x]) (idx + 1)"
proof -
  have T0: "Token \<lparr>input = pre @ l # ls, tokenState = st, tokenStack = stk\<rparr>
            = Token \<lparr>input = l # ls, tokenState = st', tokenStack = stk\<rparr>" for l ls
    using pre by (auto simp: Token_skip)
  have V: "tokenValueAllowed st'"
    using pre by (auto simp: tokenValueAllowed_def)
  have E: "tokenValueEnd st' = tokenArrayComma"
    using pre by (auto simp: tokenValueEnd_def)
  have same: "promote x = toNative x \<Longrightarrow> s[idx := promote x] = s"
    using lookup by (metis list_update_id)
  show ?thesis
  proof (cases x)
    case JNull
    with same show ?thesis
      by (subst decodeSlice_loop.simps) (simp add: T0 Token_scalar [OF V] E)
  next
    case (JBool b)
    with same show ?thesis
      by (subst decodeSlice_loop.simps) (simp add: T0 Token_scalar [OF V] E)
  next
    case (JNumber lit)
    with same valid show ?thesis
      by (subst decodeSlice_loop.simps) (simp add: T0 Token_scalar [OF V] E)
  next
    case (JString str)
    with same show ?thesis
      by (subst decodeSlice_loop.simps) (simp add: T0 Token_scalar [OF V] E)
  next
    case (JObject kvs)
    have lx: "lexemes_of (JObject kvs) = LBrace # tl (comma_members kvs) @ [RBrace]"
      by (cases kvs) auto
    from valid JObject have d: "distinct (map fst kvs)" by auto
    have c: "\<forall>(k, y) \<in> set kvs.
               map_of (values \<lparr>keys = [], values = toNative_members kvs []\<rparr>) k = Some (toNative y)"
      using d by (auto simp: toNative_members_lookup)
    from obj [OF JObject, unfolded object_decoded_def, rule_format,
        of "{}" "\<lparr>keys = [], values = toNative_members kvs []\<rparr>" tail stk st']
      d c
    have N: "decode_loop
               \<lparr>input = tl (comma_members kvs) @ RBrace # tail, tokenState = tokenObjectStart,
                tokenStack = stk @ [st']\<rparr>
               \<lparr>keys = [], values = toNative_members kvs []\<rparr> {}
             = (None, \<lparr>input = tail, tokenState = tokenArrayComma, tokenStack = stk\<rparr>,
                \<lparr>keys = map fst kvs, values = promote_members kvs\<rparr>)"
      by (simp add: E promote_into_toNative)
    show ?thesis
      using idx lookup pre unfolding JObject lx
      by (subst decodeSlice_loop.simps)
         (auto simp: T0 Token_open [OF V] N)
  next
    case (JArray xs)
    have lx: "lexemes_of (JArray xs) = LBrack # tl (comma_elements xs) @ [RBrack]"
      by (cases xs) auto
    from arr [OF JArray, unfolded array_decoded_def, rule_format,
        of 0 "map toNative xs" tail stk st']
    have N: "decodeSlice_loop
               \<lparr>input = tl (comma_elements xs) @ RBrack # tail, tokenState = tokenArrayStart,
                tokenStack = stk @ [st']\<rparr> (map toNative xs) 0
             = (None, \<lparr>input = tail, tokenState = tokenArrayComma, tokenStack = stk\<rparr>,
                map promote xs)"
      by (simp add: E)
    show ?thesis
      using idx lookup pre unfolding JArray lx
      by (subst decodeSlice_loop.simps)
         (auto simp: T0 Token_open [OF V] N)
  qed
qed

lemma decode_elements_cons:
  assumes pre: "(pre = [] \<and> st = tokenArrayStart \<and> st' = tokenArrayStart)
                \<or> (pre = [Comma] \<and> st = tokenArrayComma \<and> st' = tokenArrayValue)"
    and valid: "\<not> has_duplicate x" "\<not> range_error x"
    and obj: "\<And>kvs. x = JObject kvs \<Longrightarrow> object_decoded kvs"
    and arr: "\<And>xs. x = JArray xs \<Longrightarrow> array_decoded xs"
    and IH: "\<And>s idx. idx + length xs \<le> length s \<Longrightarrow>
               (\<forall>i < length xs. s ! (idx + i) = toNative (xs ! i)) \<Longrightarrow>
               decodeSlice_loop
                 \<lparr>input = comma_elements xs @ RBrack # rest, tokenState = tokenArrayComma,
                  tokenStack = stk\<rparr> s idx
               = (None, D, take idx s @ map promote xs @ drop (idx + length xs) s)"
    and len: "idx + length (x # xs) \<le> length s"
    and lookup: "\<forall>i < length (x # xs). s ! (idx + i) = toNative ((x # xs) ! i)"
  shows "decodeSlice_loop
           \<lparr>input = pre @ lexemes_of x @ comma_elements xs @ RBrack # rest, tokenState = st,
            tokenStack = stk\<rparr> s idx
         = (None, D, take idx s @ map promote (x # xs) @ drop (idx + length (x # xs)) s)"
proof -
  from len have i: "idx < length s" by simp
  from lookup have l0: "s ! idx = toNative x" by force
  have l1: "\<forall>i < length xs. s[idx := promote x] ! (idx + 1 + i) = toNative (xs ! i)"
  proof (intro allI impI)
    fix i assume "i < length xs"
    with lookup have "s ! (idx + Suc i) = toNative ((x # xs) ! Suc i)" by force
    then show "s[idx := promote x] ! (idx + 1 + i) = toNative (xs ! i)" by simp
  qed
  have "decodeSlice_loop
           \<lparr>input = pre @ lexemes_of x @ comma_elements xs @ RBrack # rest, tokenState = st,
            tokenStack = stk\<rparr> s idx
        = decodeSlice_loop
            \<lparr>input = comma_elements xs @ RBrack # rest, tokenState = tokenArrayComma,
             tokenStack = stk\<rparr> (s[idx := promote x]) (idx + 1)"
    by (rule decode_element [OF pre i l0 valid obj arr])
  also have "\<dots> = (None, D, take (idx + 1) (s[idx := promote x]) @ map promote xs
                        @ drop (idx + 1 + length xs) (s[idx := promote x]))"
    using len l1 by (intro IH) simp_all
  also have "take (idx + 1) (s[idx := promote x]) = take idx s @ [promote x]"
    using i by (simp add: take_Suc_conv_app_nth)
  also have "drop (idx + 1 + length xs) (s[idx := promote x]) = drop (idx + length (x # xs)) s"
    by simp
  finally show ?thesis by simp
qed

lemma decode_members_cons:
  assumes pre: "(pre = [] \<and> st = tokenObjectStart) \<or> (pre = [Comma] \<and> st = tokenObjectComma)"
    and valid: "\<not> has_duplicate x" "\<not> range_error x"
    and obj: "\<And>kvs. x = JObject kvs \<Longrightarrow> object_decoded kvs"
    and arr: "\<And>xs. x = JArray xs \<Longrightarrow> array_decoded xs"
    and IH: "\<And>m hasKey. distinct (map fst kvs) \<Longrightarrow> set (map fst kvs) \<inter> hasKey = {} \<Longrightarrow>
               (\<forall>(k, y) \<in> set kvs. map_of (values m) k = Some (toNative y)) \<Longrightarrow>
               decode_loop
                 \<lparr>input = comma_members kvs @ RBrace # rest, tokenState = tokenObjectComma,
                  tokenStack = stk\<rparr> m hasKey
               = (None, D, m\<lparr>keys := keys m @ map fst kvs,
                            values := promote_into kvs (values m)\<rparr>)"
    and d: "distinct (map fst ((k, x) # kvs))"
    and h: "set (map fst ((k, x) # kvs)) \<inter> hasKey = {}"
    and lookup: "\<forall>(k', y) \<in> set ((k, x) # kvs). map_of (values m) k' = Some (toNative y)"
  shows "decode_loop
           \<lparr>input = pre @ LString k # Colon # lexemes_of x @ comma_members kvs @ RBrace # rest,
            tokenState = st, tokenStack = stk\<rparr> m hasKey
         = (None, D, m\<lparr>keys := keys m @ map fst ((k, x) # kvs),
                      values := promote_into ((k, x) # kvs) (values m)\<rparr>)"
proof -
  let ?m = "m\<lparr>keys := keys m @ [k], values := AList.update k (promote x) (values m)\<rparr>"
  from h have k: "k \<notin> hasKey" by auto
  from lookup have l0: "map_of (values m) k = Some (toNative x)" by auto
  have l1: "\<forall>(k', y) \<in> set kvs. map_of (values ?m) k' = Some (toNative y)"
  proof (clarify)
    fix k' y assume m: "(k', y) \<in> set kvs"
    then have "k' \<in> fst ` set kvs" by force
    with d have "k' \<noteq> k" by auto
    with lookup m show "map_of (values ?m) k' = Some (toNative y)"
      by (auto simp: update_conv')
  qed
  have h1: "set (map fst kvs) \<inter> insert k hasKey = {}"
    using d h by auto
  have "decode_loop
           \<lparr>input = pre @ LString k # Colon # lexemes_of x @ comma_members kvs @ RBrace # rest,
            tokenState = st, tokenStack = stk\<rparr> m hasKey
        = decode_loop
            \<lparr>input = comma_members kvs @ RBrace # rest, tokenState = tokenObjectComma,
             tokenStack = stk\<rparr> ?m (insert k hasKey)"
    by (rule decode_member [OF pre k l0 valid obj arr])
  also have "\<dots> = (None, D, ?m\<lparr>keys := keys ?m @ map fst kvs,
                              values := promote_into kvs (values ?m)\<rparr>)"
    using d h1 l1 by (intro IH) simp_all
  finally show ?thesis by simp
qed

lemma decode_lexemes:
  "\<not> has_duplicate j \<Longrightarrow> \<not> range_error j \<Longrightarrow>
     (\<forall>kvs. j = JObject kvs \<longrightarrow> object_decoded kvs) \<and>
     (\<forall>xs. j = JArray xs \<longrightarrow> array_decoded xs)"
  "\<forall>x \<in> set xs. \<not> has_duplicate x \<and> \<not> range_error x \<Longrightarrow>
   idx + length xs \<le> length s \<Longrightarrow>
   (\<forall>i < length xs. s ! (idx + i) = toNative (xs ! i)) \<Longrightarrow>
   decodeSlice_loop
     \<lparr>input = comma_elements xs @ RBrack # rest, tokenState = tokenArrayComma,
      tokenStack = stk @ [st0]\<rparr> s idx
   = (None, \<lparr>input = rest, tokenState = tokenValueEnd st0, tokenStack = stk\<rparr>,
      take idx s @ map promote xs @ drop (idx + length xs) s)"
  "\<forall>x \<in> set (map snd kvs). \<not> has_duplicate x \<and> \<not> range_error x \<Longrightarrow>
   distinct (map fst kvs) \<Longrightarrow> set (map fst kvs) \<inter> hasKey = {} \<Longrightarrow>
   (\<forall>(k, y) \<in> set kvs. map_of (values m) k = Some (toNative y)) \<Longrightarrow>
   decode_loop
     \<lparr>input = comma_members kvs @ RBrace # rest, tokenState = tokenObjectComma,
      tokenStack = stk @ [st0]\<rparr> m hasKey
   = (None, \<lparr>input = rest, tokenState = tokenValueEnd st0, tokenStack = stk\<rparr>,
      m\<lparr>keys := keys m @ map fst kvs, values := promote_into kvs (values m)\<rparr>)"
proof (induction j and xs and kvs
        arbitrary: and idx s rest stk st0 and hasKey m rest stk st0
        rule: lexemes_of_comma_elements_comma_members.induct)
  case 5
  show ?case
    by (simp add: array_decoded_def decodeSlice_loop_end)
next
  case (6 x xs)
  from "6.prems" have vx: "\<not> has_duplicate x" "\<not> range_error x"
    and vxs: "\<forall>y \<in> set xs. \<not> has_duplicate y \<and> \<not> range_error y"
    by auto
  note ox = "6.IH"(1) [OF vx, THEN conjunct1, rule_format]
  note ax = "6.IH"(1) [OF vx, THEN conjunct2, rule_format]
  have "array_decoded (x # xs)"
    unfolding array_decoded_def
  proof (intro allI impI, elim conjE)
    fix s idx rest stk st0
    assume len: "idx + length (x # xs) \<le> length s"
      and lk: "\<forall>i < length (x # xs). s ! (idx + i) = toNative ((x # xs) ! i)"
    have "decodeSlice_loop
            \<lparr>input = [] @ lexemes_of x @ comma_elements xs @ RBrack # rest,
             tokenState = tokenArrayStart, tokenStack = stk @ [st0]\<rparr> s idx
          = (None, \<lparr>input = rest, tokenState = tokenValueEnd st0, tokenStack = stk\<rparr>,
             take idx s @ map promote (x # xs) @ drop (idx + length (x # xs)) s)"
      by (rule decode_elements_cons [where st' = tokenArrayStart, OF _ vx ox ax _ len lk])
         (simp_all add: "6.IH"(2) [OF vxs])
    then show "decodeSlice_loop
            \<lparr>input = tl (comma_elements (x # xs)) @ RBrack # rest,
             tokenState = tokenArrayStart, tokenStack = stk @ [st0]\<rparr> s idx
          = (None, \<lparr>input = rest, tokenState = tokenValueEnd st0, tokenStack = stk\<rparr>,
             take idx s @ map promote (x # xs) @ drop (idx + length (x # xs)) s)"
      by simp
  qed
  then show ?case by simp
next
  case 7
  show ?case
    by (simp add: object_decoded_def decode_loop_end)
next
  case (8 k x kvs)
  from "8.prems" have vx: "\<not> has_duplicate x" "\<not> range_error x"
    and vxs: "\<forall>y \<in> set (map snd kvs). \<not> has_duplicate y \<and> \<not> range_error y"
    by auto
  note ox = "8.IH"(1) [OF vx, THEN conjunct1, rule_format]
  note ax = "8.IH"(1) [OF vx, THEN conjunct2, rule_format]
  have "object_decoded ((k, x) # kvs)"
    unfolding object_decoded_def
  proof (intro allI impI, elim conjE)
    fix m :: OrderedMap and hasKey rest stk st0
    assume d: "distinct (map fst ((k, x) # kvs))"
      and h: "set (map fst ((k, x) # kvs)) \<inter> hasKey = {}"
      and lk: "\<forall>(k', y) \<in> set ((k, x) # kvs). map_of (values m) k' = Some (toNative y)"
    have "decode_loop
            \<lparr>input = [] @ LString k # Colon # lexemes_of x @ comma_members kvs @ RBrace # rest,
             tokenState = tokenObjectStart, tokenStack = stk @ [st0]\<rparr> m hasKey
          = (None, \<lparr>input = rest, tokenState = tokenValueEnd st0, tokenStack = stk\<rparr>,
             m\<lparr>keys := keys m @ map fst ((k, x) # kvs),
               values := promote_into ((k, x) # kvs) (values m)\<rparr>)"
      by (rule decode_members_cons [OF _ vx ox ax _ d h lk])
         (simp_all add: "8.IH"(2) [OF vxs])
    then show "decode_loop
            \<lparr>input = tl (comma_members ((k, x) # kvs)) @ RBrace # rest,
             tokenState = tokenObjectStart, tokenStack = stk @ [st0]\<rparr> m hasKey
          = (None, \<lparr>input = rest, tokenState = tokenValueEnd st0, tokenStack = stk\<rparr>,
             m\<lparr>keys := keys m @ map fst ((k, x) # kvs),
               values := promote_into ((k, x) # kvs) (values m)\<rparr>)"
      by simp
  qed
  then show ?case by simp
next
  case 9
  show ?case by (simp add: decodeSlice_loop_end)
next
  case (10 x xs)
  from "10.prems" have vx: "\<not> has_duplicate x" "\<not> range_error x"
    and vxs: "\<forall>y \<in> set xs. \<not> has_duplicate y \<and> \<not> range_error y"
    by auto
  note ox = "10.IH"(1) [OF vx, THEN conjunct1, rule_format]
  note ax = "10.IH"(1) [OF vx, THEN conjunct2, rule_format]
  have "decodeSlice_loop
          \<lparr>input = [Comma] @ lexemes_of x @ comma_elements xs @ RBrack # rest,
           tokenState = tokenArrayComma, tokenStack = stk @ [st0]\<rparr> s idx
        = (None, \<lparr>input = rest, tokenState = tokenValueEnd st0, tokenStack = stk\<rparr>,
           take idx s @ map promote (x # xs) @ drop (idx + length (x # xs)) s)"
    by (rule decode_elements_cons [where st' = tokenArrayValue, OF _ vx ox ax _ "10.prems"(2,3)])
       (simp_all add: "10.IH"(2) [OF vxs])
  then show ?case by simp
next
  case 11
  show ?case by (simp add: decode_loop_end)
next
  case (12 k x kvs)
  from "12.prems" have vx: "\<not> has_duplicate x" "\<not> range_error x"
    and vxs: "\<forall>y \<in> set (map snd kvs). \<not> has_duplicate y \<and> \<not> range_error y"
    by auto
  note ox = "12.IH"(1) [OF vx, THEN conjunct1, rule_format]
  note ax = "12.IH"(1) [OF vx, THEN conjunct2, rule_format]
  have "decode_loop
          \<lparr>input = [Comma] @ LString k # Colon # lexemes_of x @ comma_members kvs @ RBrace # rest,
           tokenState = tokenObjectComma, tokenStack = stk @ [st0]\<rparr> m hasKey
        = (None, \<lparr>input = rest, tokenState = tokenValueEnd st0, tokenStack = stk\<rparr>,
           m\<lparr>keys := keys m @ map fst ((k, x) # kvs),
             values := promote_into ((k, x) # kvs) (values m)\<rparr>)"
    by (rule decode_members_cons [OF _ vx ox ax _ "12.prems"(2,3,4)])
       (simp_all add: "12.IH"(2) [OF vxs])
  then show ?case by simp
qed simp_all

lemma no_duplicate_first_dup:
  "\<not> has_duplicate j \<Longrightarrow> first_dup j = None"
  "\<forall>x \<in> set xs. \<not> has_duplicate x \<Longrightarrow> first_dup_elements xs = None"
  "\<forall>x \<in> set (map snd kvs). \<not> has_duplicate x \<Longrightarrow> distinct (map fst kvs) \<Longrightarrow>
   set (map fst kvs) \<inter> seen = {} \<Longrightarrow> first_dup_members kvs seen = None"
  by (induction j and xs and kvs seen
        rule: first_dup_first_dup_elements_first_dup_members.induct)
     (auto split: option.splits)

lemma parse_complete:
  "parse_value (lexemes_of j @ rest) = Some (j, rest)"
  "(\<And>r. parse_value (lexemes_of x @ r) = Some (x, r)) \<Longrightarrow>
   parse_elements (lexemes_of x @ comma_elements xs @ RBrack # rest) = Some (x # xs, rest)"
  "(\<And>r. parse_value (lexemes_of x @ r) = Some (x, r)) \<Longrightarrow>
   parse_members (LString k # Colon # lexemes_of x @ comma_members kvs @ RBrace # rest)
     = Some ((k, x) # kvs, rest)"
proof (induction j and xs and kvs arbitrary: rest and x rest and k x rest
        rule: lexemes_of_comma_elements_comma_members.induct)
  case (6 y ys)
  obtain l ls where h: "lexemes_of y = l # ls" "l \<noteq> RBrack"
    using lexemes_of_head [of y] by blast
  have "parse_elements (lexemes_of y @ comma_elements ys @ RBrack # rest) = Some (y # ys, rest)"
    by (rule "6.IH"(2)) (rule "6.IH"(1))
  with h show ?case
    by (cases l) simp_all
next
  case (8 k' y kvs)
  have "parse_members (LString k' # Colon # lexemes_of y @ comma_members kvs @ RBrace # rest)
        = Some ((k', y) # kvs, rest)"
    by (rule "8.IH"(2)) (rule "8.IH"(1))
  then show ?case by simp
next
  case 9
  then show ?case
    by (subst parse_elements.simps) simp
next
  case (10 y ys)
  have "parse_elements (lexemes_of y @ comma_elements ys @ RBrack # rest) = Some (y # ys, rest)"
    by (rule "10.IH"(2)) (rule "10.IH"(1))
  with "10.prems" show ?case
    by (subst parse_elements.simps) simp
next
  case 11
  then show ?case
    by (subst parse_members.simps) simp
next
  case (12 k' y kvs)
  have "parse_members (LString k' # Colon # lexemes_of y @ comma_members kvs @ RBrace # rest)
        = Some ((k', y) # kvs, rest)"
    by (rule "12.IH"(2)) (rule "12.IH"(1))
  with "12.prems" show ?case
    by (subst parse_members.simps) simp
qed simp_all

lemma UnmarshalJSON_object:
  assumes l: "lex b = lexemes_of (JObject kvs)"
    and v: "\<not> has_duplicate (JObject kvs)" "\<not> range_error (JObject kvs)"
    and n: "nesting_of (lex b) 0 \<le> maxNestingDepth"
  shows "UnmarshalJSON m b
         = (None, \<lparr>keys = map fst kvs,
                   values = promote_into kvs (toNative_members kvs (values m))\<rparr>)"
proof -
  have s: "scan_error (JObject kvs) = None"
    using scan_error_first_dup(1) [OF v(2)] no_duplicate_first_dup(1) [OF v(1)] by simp
  have c: "fst (CheckDuplicate (NewDecoder b)) = None"
    using CheckDuplicate_text [OF l] s by simp
  have p: "json_Unmarshal b (values m) = (None, toNative_members kvs (values m))"
    using v(2) l n parse_complete(1) [of "JObject kvs" "[]"]
    by (simp add: json_Unmarshal_def del: lexemes_of.simps)
  have lx: "lexemes_of (JObject kvs) = LBrace # tl (comma_members kvs) @ [RBrace]"
    by (cases kvs) auto
  have t: "Token (NewDecoder b)
           = (Inr (Delim (CHR ''{'')),
              \<lparr>input = tl (comma_members kvs) @ [RBrace], tokenState = tokenObjectStart,
               tokenStack = [] @ [tokenTopValue]\<rparr>)"
    using l by (simp add: NewDecoder_def lx Token_open tokenValueAllowed_def)
  from v have d: "distinct (map fst kvs)" by simp
  have lk: "\<forall>(k, x) \<in> set kvs.
              map_of (values (m\<lparr>values := toNative_members kvs (values m), keys := []\<rparr>)) k
                = Some (toNative x)"
    using d by (auto simp: toNative_members_lookup)
  from decode_lexemes(1) [OF v] have "object_decoded kvs" by simp
  from this [unfolded object_decoded_def, rule_format,
      of "{}" "m\<lparr>values := toNative_members kvs (values m), keys := []\<rparr>" "[]" "[]" tokenTopValue]
    d lk
  have dl: "decode_loop
              \<lparr>input = tl (comma_members kvs) @ [RBrace], tokenState = tokenObjectStart,
               tokenStack = [] @ [tokenTopValue]\<rparr>
              (m\<lparr>values := toNative_members kvs (values m), keys := []\<rparr>) {}
            = (None, \<lparr>input = [], tokenState = tokenValueEnd tokenTopValue, tokenStack = []\<rparr>,
               \<lparr>keys = map fst kvs,
                values = promote_into kvs (toNative_members kvs (values m))\<rparr>)"
    by simp
  show ?thesis
    using c p t dl by (simp add: UnmarshalJSON_def decode_def)
qed

subsection \<open>Failure of UnmarshalJSON\<close>

lemma UnmarshalJSON_failure:
  assumes u: "UnmarshalJSON m b = (Some err, m')" and nn: "lex b \<noteq> [LNull]"
  shows "m' = m"
proof (cases "fst (CheckDuplicate (NewDecoder b))")
  case (Some e)
  with u UnmarshalJSON_scan_fails [OF Some, of m] show ?thesis by simp
next
  case None
  show ?thesis
  proof (cases "\<exists>j. parse_value (lex b) = Some (j, [])")
    case False
    then have "json_Unmarshal b (values m) = (Some SyntaxError, values m)"
      by (auto simp: json_Unmarshal_def split: option.splits list.splits)
    with u None show ?thesis
      by (simp add: UnmarshalJSON_def)
  next
    case True
    then obtain j where p: "parse_value (lex b) = Some (j, [])" by blast
    show ?thesis
    proof (cases "maxNestingDepth < nesting_of (lex b) 0")
      case True
      with p have "json_Unmarshal b (values m) = (Some SyntaxError, values m)"
        by (simp add: json_Unmarshal_def)
      with u None show ?thesis
        by (simp add: UnmarshalJSON_def)
    next
      case False
      then have n: "nesting_of (lex b) 0 \<le> maxNestingDepth" by simp
      from parse_sound(1) [OF p] have l: "lex b = lexemes_of j" by simp
      from CheckDuplicate_text [OF l] None have "scan_error j = None" by simp
      from scan_error_None(1) [OF this] have v: "\<not> has_duplicate j" "\<not> range_error j"
        by simp_all
      have other: "m' = m"
        if "json_Unmarshal b (values m) = (Some UnmarshalTypeError, values m)"
        using that u None by (simp add: UnmarshalJSON_def)
      show ?thesis
      proof (cases j)
        case JNull
        with l nn show ?thesis by simp
      next
        case (JObject kvs)
        from UnmarshalJSON_object [OF l [unfolded JObject] v [unfolded JObject] n, of m] u
        show ?thesis by simp
      next
        case (JBool x)
        with p False show ?thesis by (intro other) (simp add: json_Unmarshal_def)
      next
        case (JNumber x)
        with p False show ?thesis by (intro other) (simp add: json_Unmarshal_def)
      next
        case (JString x)
        with p False show ?thesis by (intro other) (simp add: json_Unmarshal_def)
      next
        case (JArray x)
        with p False show ?thesis by (intro other) (simp add: json_Unmarshal_def)
      qed
    qed
  qed
qed

text \<open>
  C4 fails on the code, on the JSON text \<open>null\<close>. The duplicate scan passes a scalar,
  \<open>json.Unmarshal\<close> then sets the value map to nil, the first token is read without
  error, the keys are reset, and \<open>decode\<close> finds the input exhausted: the call returns
  \<open>io.EOF\<close> and the container has lost every entry it held. (The map is nil afterwards,
  which the model writes \<open>[]\<close>.) On every other input a failing call leaves the
  container as it was (\<open>UnmarshalJSON_failure\<close>), and a failing duplicate scan returns
  before anything is stored (\<open>UnmarshalJSON_scan_fails\<close>).
\<close>

theorem UnmarshalJSON_null_discards_entries:
  \<open>UnmarshalJSON (Set New ''x'' (Bool True)) ''null'' = (Some EOF, \<lparr>keys = [], values = []\<rparr>)\<close>
  by code_simp

text \<open>
  C6 fails on the code. \<open>json.Unmarshal\<close> keeps the entries that the value map already
  holds, while \<open>UnmarshalJSON\<close> rebuilds the key slice from the input alone: after
  unmarshalling \<open>{"a":1}\<close> into the container that holds \<open>x\<close>, the key \<open>x\<close> is still in
  the value map and no longer among the keys.
\<close>

theorem UnmarshalJSON_keeps_old_values:
  \<open>UnmarshalJSON (Set New ''x'' (Bool True)) ''{"a":1}''
     = (None, \<lparr>keys = [''a''], values = [(''x'', Bool True), (''a'', Float64 ''1'')]\<rparr>)\<close>
  by code_simp

subsection \<open>Marshalling and unmarshalling back\<close>






























lemma scan_exp_terminated: "terminated rest \<Longrightarrow> scan_exp pre rest = Inr (pre, rest)"
  by (cases rest) (simp_all add: scan_exp_def terminated_def numchar_def)



















lemma json_members_map:
  "json_members kvs = map (\<lambda>(k, v). (k, json_of v)) kvs"
  by (induction kvs) auto

lemma encode_members_map:
  "encode_members kvs = map (\<lambda>(k, v). (k, encode v)) kvs"
  by (induction kvs) auto













lemma nesting_of_ge: "d \<le> nesting_of ls d"
proof (induction ls arbitrary: d)
  case Nil
  show ?case by simp
next
  case (Cons l ls)
  from Cons [of "Suc d"] Cons [of d] show ?case by auto
qed

lemma nesting_of_lexemes:
  "nesting_of (lexemes_of j @ rest) d = max (d + depth j) (nesting_of rest d)"
  "nesting_of (comma_elements xs @ rest) d = max (d + depth_elements xs) (nesting_of rest d)"
  "nesting_of (comma_members kvs @ rest) d = max (d + depth_members kvs) (nesting_of rest d)"
proof (induction j and xs and kvs arbitrary: rest d and rest d and rest d
        rule: lexemes_of_comma_elements_comma_members.induct)
  case 1
  show ?case using nesting_of_ge [of d rest] by simp
next
  case (2 b)
  show ?case using nesting_of_ge [of d rest] by simp
next
  case (3 lit)
  show ?case using nesting_of_ge [of d rest] by simp
next
  case (4 s)
  show ?case using nesting_of_ge [of d rest] by simp
next
  case 5
  show ?case using nesting_of_ge [of d rest] by simp
next
  case (6 x xs)
  show ?case
    using nesting_of_ge [of d rest]
    by (simp add: "6.IH"(1) [of "comma_elements xs @ RBrack # rest" "Suc d"]
          "6.IH"(2) [of "RBrack # rest" "Suc d"])
next
  case 7
  show ?case using nesting_of_ge [of d rest] by simp
next
  case (8 k x kvs)
  show ?case
    using nesting_of_ge [of d rest]
    by (simp add: "8.IH"(1) [of "comma_members kvs @ RBrace # rest" "Suc d"]
          "8.IH"(2) [of "RBrace # rest" "Suc d"])
next
  case 9
  show ?case using nesting_of_ge [of d rest] by simp
next
  case (10 x xs)
  show ?case
    by (simp add: "10.IH"(1) [of "comma_elements xs @ rest" d] "10.IH"(2) [of rest d])
next
  case 11
  show ?case using nesting_of_ge [of d rest] by simp
next
  case (12 k x kvs)
  show ?case
    by (simp add: "12.IH"(1) [of "comma_members kvs @ rest" d] "12.IH"(2) [of rest d])
qed

lemma nesting_of_text: "nesting_of (lexemes_of j) 0 = depth j"
  using nesting_of_lexemes(1) [of j "[]" 0] by simp

text \<open>
  A text that passes the duplicate scan and is nested deeper than the scanner allows is
  refused by \<open>json.Unmarshal\<close>, and the container stays as it was.
\<close>

lemma UnmarshalJSON_too_deep:
  assumes l: "lex b = lexemes_of j" and s: "scan_error j = None"
    and d: "maxNestingDepth < depth j"
  shows "UnmarshalJSON m b = (Some SyntaxError, m)"
proof -
  have c: "fst (CheckDuplicate (NewDecoder b)) = None"
    using CheckDuplicate_text [OF l] s by simp
  have p: "parse_value (lex b) = Some (j, [])"
    using parse_complete(1) [of j "[]"] l by simp
  have n: "maxNestingDepth < nesting_of (lex b) 0"
    using d by (simp only: l nesting_of_text)
  from p n have "json_Unmarshal b (values m) = (Some SyntaxError, values m)"
    by (simp add: json_Unmarshal_def)
  with c show ?thesis
    by (simp add: UnmarshalJSON_def)
qed


























end
